theory Spec2Isabelle
  imports Complex_Main "HOL-Library.Sublist" "HOL-Library.AList"
begin

text \<open>
  The crawl pipeline of \<open>lsearch.py\<close>: the deduplicator \<open>_dedupe_keep_order\<close>, the rate
  limiter \<open>FixedPacer\<close>, the fetcher \<open>_get\<close>, the three kinds of task and the
  orchestrator \<open>run\<close>. The program runs on \<open>asyncio\<close>: one coroutine runs at a time, and
  it runs without interruption from one suspension point (an \<open>await\<close> that really waits)
  to the next. A coroutine is therefore modelled by the places at which it can be
  suspended and by one step function for the code between two such places; a run is a
  list of events, each of which resumes one coroutine, and the statements hold for every
  such list.
\<close>

section \<open>The Deduplicator: \<open>_dedupe_keep_order\<close>\<close>

text \<open>
  \<^verbatim>\<open>
  def _dedupe_keep_order(urls):
      seen, out = set(), []
      for u in urls:
          if u not in seen:
              seen.add(u); out.append(u)
      return out
  \<close>
  The loop carries the pair \<open>(seen, out)\<close>; the function returns \<open>out\<close>.
\<close>

fun dedupe_loop :: "string list \<Rightarrow> string set \<times> string list \<Rightarrow> string set \<times> string list" where
  "dedupe_loop [] (seen, out) = (seen, out)"
| "dedupe_loop (u # urls) (seen, out) =
     (if u \<notin> seen then dedupe_loop urls (insert u seen, out @ [u])
      else dedupe_loop urls (seen, out))"

definition dedupe_keep_order :: "string list \<Rightarrow> string list" where
  "dedupe_keep_order urls = snd (dedupe_loop urls ({}, []))"

text \<open>
  What the contract says in words: an element is kept exactly when it does not occur
  earlier in the input, and the kept elements stay in input order.
\<close>

definition first_occurrences :: "string list \<Rightarrow> string list" where
  "first_occurrences urls =
     map (\<lambda>i. urls ! i) (filter (\<lambda>i. urls ! i \<notin> set (take i urls)) [0..<length urls])"

section \<open>The rate limiter: \<open>FixedPacer\<close>\<close>

text \<open>
  \<^verbatim>\<open>
  class FixedPacer:
      def __init__(self, rps):
          self.rps = max(1, int(rps))
          self.starts = deque()
          self.lock = asyncio.Lock()
          self.total_started = 0
  \<close>
  Time stamps are the readings of \<open>time.monotonic()\<close>; they are modelled as real numbers,
  so the comparisons below are exact. The lock is part of the scheduler state further
  down.
\<close>

record pacer =
  rps :: int
  starts :: "real list"
  total_started :: int

definition FixedPacer :: "int \<Rightarrow> pacer" where
  "FixedPacer r = \<lparr>rps = max 1 r, starts = [], total_started = 0\<rparr>"

definition JITTER_MAX_S :: real where
  "JITTER_MAX_S = 5 / 1000"

text \<open>
  \<^verbatim>\<open>
  while self.starts and (now - self.starts[0] >= 1.0):
      self.starts.popleft()
  \<close>
\<close>

fun evict :: "real \<Rightarrow> real list \<Rightarrow> real list" where
  "evict now [] = []"
| "evict now (s # ss) = (if now - s \<ge> 1 then evict now ss else s # ss)"

text \<open>
  The block of \<open>acquire\<close> that runs under \<open>async with self.lock\<close>, up to its first
  suspension: it reads the clock, evicts, and either admits the caller or computes how
  long the caller has to sleep before it retries.
  \<^verbatim>\<open>
  now = time.monotonic()
  while ...: self.starts.popleft()
  if len(self.starts) < self.rps:
      self.starts.append(now)
      self.total_started += 1
      if JITTER_MAX_S > 0:
          j = (random.random() * 2 - 1) * JITTER_MAX_S
          if j > 0:
              await asyncio.sleep(j)
      return
  sleep_for = 1.0 - (now - self.starts[0])
  \<close>
  \<open>Admit p j\<close>: admitted, with \<open>j = Some d\<close> when the caller goes on to sleep its jitter
  \<open>d\<close> (still inside the \<open>async with\<close> block) and \<open>None\<close> when it returns at once.
  \<open>Retry p d\<close>: the window is full, \<open>sleep_for = d\<close>. \<open>NoHead p\<close>: the window is empty and
  yet not below capacity, where \<open>self.starts[0]\<close> raises IndexError. The argument \<open>r\<close> is
  the value drawn by \<open>random.random()\<close>.
\<close>

datatype verdict = Admit pacer "real option" | Retry pacer real | NoHead pacer

definition locked_block :: "real \<Rightarrow> real \<Rightarrow> pacer \<Rightarrow> verdict" where
  "locked_block now r p =
     (let ss = evict now (starts p) in
      if int (length ss) < rps p then
        (let p' = p\<lparr>starts := ss @ [now], total_started := total_started p + 1\<rparr>;
             j = (r * 2 - 1) * JITTER_MAX_S
         in Admit p' (if JITTER_MAX_S > 0 \<and> j > 0 then Some j else None))
      else
        (case ss of
           [] \<Rightarrow> NoHead (p\<lparr>starts := ss\<rparr>)
         | s # _ \<Rightarrow> Retry (p\<lparr>starts := ss\<rparr>) (1 - (now - s))))"

subsection \<open>Callers of \<open>acquire\<close> under the cooperative scheduler\<close>

text \<open>
  \<^verbatim>\<open>
  async def acquire(self):
      while True:
          async with self.lock:
              <the locked block>
          await asyncio.sleep(max(0.001, sleep_for))
  \<close>
  A coroutine runs without interruption between two of its suspension points. A caller of
  \<open>acquire\<close> is therefore at one of these places: about to enter the loop (\<open>Calling\<close>),
  suspended on the lock (\<open>WaitingLock\<close>), suspended in the jitter sleep inside the
  \<open>async with\<close> block (\<open>SleepingJitter\<close>, with its wake-up time), suspended in the
  back-off sleep after the block (\<open>SleepingBackoff\<close>), returned (\<open>Done\<close>) or ended by the
  IndexError (\<open>Crashed\<close>).
\<close>

datatype pc =
  Calling | WaitingLock | SleepingJitter real | SleepingBackoff real | Done | Crashed

record limiter =
  pacer_of :: pacer
  lock_holder :: "nat option"
  clock :: real
  callers :: "nat \<Rightarrow> pc"
  admissions :: "real list"

text \<open>
  \<open>admissions\<close> is the observation log of the simulated clock test: every time stamp that
  \<open>acquire\<close> appends to \<open>starts\<close> is appended to it as well, and nothing is removed.
\<close>

definition init_limiter :: "int \<Rightarrow> real \<Rightarrow> limiter" where
  "init_limiter r t0 =
     \<lparr>pacer_of = FixedPacer r, lock_holder = None, clock = t0,
      callers = (\<lambda>_. Calling), admissions = []\<rparr>"

text \<open>
  Caller \<open>i\<close> reaches \<open>async with self.lock\<close>. If the lock is held it suspends; otherwise it
  takes the lock and runs the locked block. The lock is released when the block is left:
  at once on \<open>return\<close> without jitter and on the way to the back-off sleep, but only after
  the jitter sleep when there is one.
\<close>

definition enter_lock :: "nat \<Rightarrow> real \<Rightarrow> limiter \<Rightarrow> limiter" where
  "enter_lock i r s =
     (if lock_holder s \<noteq> None then s\<lparr>callers := (callers s)(i := WaitingLock)\<rparr>
      else
        (case locked_block (clock s) r (pacer_of s) of
           Admit p' None \<Rightarrow>
             s\<lparr>pacer_of := p', callers := (callers s)(i := Done),
               admissions := admissions s @ [clock s]\<rparr>
         | Admit p' (Some j) \<Rightarrow>
             s\<lparr>pacer_of := p', lock_holder := Some i,
               callers := (callers s)(i := SleepingJitter (clock s + j)),
               admissions := admissions s @ [clock s]\<rparr>
         | Retry p' sleep_for \<Rightarrow>
             s\<lparr>pacer_of := p',
               callers := (callers s)(i := SleepingBackoff (clock s + max (1 / 1000) sleep_for))\<rparr>
         | NoHead p' \<Rightarrow>
             s\<lparr>pacer_of := p', callers := (callers s)(i := Crashed)\<rparr>))"

text \<open>
  The scheduler's events: time passes (the monotonic clock never goes back), or caller \<open>i\<close>
  is resumed, with the value \<open>random.random()\<close> would give it. A sleeper is resumed only
  once its wake-up time has come; resuming it earlier changes nothing.
\<close>

datatype pevent = Elapse real | Resume nat real

fun pstep :: "pevent \<Rightarrow> limiter \<Rightarrow> limiter" where
  "pstep (Elapse d) s = s\<lparr>clock := clock s + max 0 d\<rparr>"
| "pstep (Resume i r) s =
     (case callers s i of
        Calling \<Rightarrow> enter_lock i r s
      | WaitingLock \<Rightarrow> enter_lock i r s
      | SleepingBackoff w \<Rightarrow> if w \<le> clock s then enter_lock i r s else s
      | SleepingJitter w \<Rightarrow>
          if w \<le> clock s then s\<lparr>lock_holder := None, callers := (callers s)(i := Done)\<rparr>
          else s
      | Done \<Rightarrow> s
      | Crashed \<Rightarrow> s)"

fun pexec :: "pevent list \<Rightarrow> limiter \<Rightarrow> limiter" where
  "pexec [] s = s"
| "pexec (e # es) s = pexec es (pstep e s)"

text \<open>The trailing one-second window that ends at \<open>t\<close>.\<close>

definition trailing_window :: "real \<Rightarrow> real \<Rightarrow> bool" where
  "trailing_window t a = (t - 1 < a \<and> a \<le> t)"

definition admitted_in_window :: "real \<Rightarrow> limiter \<Rightarrow> nat" where
  "admitted_in_window t s = length (filter (trailing_window t) (admissions s))"

subsection \<open>Invariants of the limiter\<close>

text \<open>
  The invariant of the limiter: the window \<open>starts\<close> is the tail of the log, everything in
  the log before it is at least one second old, nothing in the log is in the future, the
  window never holds more than \<open>rps\<close> stamps, and no trailing window holds more than \<open>rps\<close>
  admissions.
\<close>

definition window_tail :: "limiter \<Rightarrow> bool" where
  "window_tail s =
     (\<exists>old. admissions s = old @ starts (pacer_of s) \<and> (\<forall>a\<in>set old. a + 1 \<le> clock s))"

definition limiter_inv :: "limiter \<Rightarrow> bool" where
  "limiter_inv s =
     (window_tail s
      \<and> (\<forall>a\<in>set (admissions s). a \<le> clock s)
      \<and> (\<forall>t. int (admitted_in_window t s) \<le> rps (pacer_of s)))"

text \<open>
  The lock discipline: whoever holds the lock is in its jitter sleep, and a caller in its
  jitter sleep holds the lock.
\<close>

definition lock_inv :: "limiter \<Rightarrow> bool" where
  "lock_inv s =
     (\<forall>i. (lock_holder s = Some i) = (\<exists>w. callers s i = SleepingJitter w))"

section \<open>The fetcher: \<open>_get\<close>\<close>

text \<open>
  The exceptions that occur in the pipeline. \<open>asyncio.CancelledError\<close> derives from
  \<open>BaseException\<close>, not from \<open>Exception\<close>, so an \<open>except Exception\<close> clause does not catch
  it; every other exception here is an \<open>Exception\<close>. \<open>OtherError name text\<close> stands for an
  exception of class \<open>name\<close> whose \<open>str\<close> is \<open>text\<close> (a time-out, a connection error).
  \<open>ValueError\<close> is what \<open>int\<close> raises.
\<close>

datatype exc =
  CancelledError
| ClientResponseError int string
| OtherError string string
| ZeroDivisionError
| ValueError

definition is_Exception :: "exc \<Rightarrow> bool" where
  "is_Exception e = (e \<noteq> CancelledError)"

text \<open>
  The text of a page is a Python \<open>str\<close>, a sequence of code points; \<open>asc\<close> gives the text
  of an ASCII literal. URLs and printed lines are only compared, joined and handed on,
  and stay \<open>string\<close>s.
\<close>

type_synonym page = "nat list"

definition asc :: "string \<Rightarrow> page" where
  "asc s = map of_char s"

text \<open>
  What the body of the \<open>try\<close> in \<open>_get\<close> comes to once the request has been issued:
  the text of the page, a status for which \<open>raise_for_status()\<close> raises, or an error of
  the transport.
\<close>

datatype response = Body page | HttpError int string | TransportError string string

text \<open>\<open>str\<close> of an integer, for the formatted output and the page numbers.\<close>

definition digit_char :: "nat \<Rightarrow> char" where
  "digit_char d = char_of (48 + d)"

fun str_nat :: "nat \<Rightarrow> string" where
  "str_nat n = (if n < 10 then [digit_char n] else str_nat (n div 10) @ [digit_char (n mod 10)])"

declare str_nat.simps [simp del]

definition str_int :: "int \<Rightarrow> string" where
  "str_int i = (if i < 0 then CHR ''-'' # str_nat (nat (- i)) else str_nat (nat i))"

text \<open>
  The state that the tasks of a run share. \<open>printed\<close> holds the lines written by \<open>print\<close>,
  \<open>acquired\<close> counts the calls of \<open>pacer.acquire()\<close>, and \<open>requested\<close> lists the URLs for
  which \<open>session.get\<close> was issued; \<open>tourneys\<close>, \<open>deck_urls\<close> and \<open>matches\<close> are the three
  accumulators of \<open>run\<close>.
\<close>

record match =
  url :: string
  player :: string
  archetype :: string
  points :: int
  wins :: int
  losses :: int
  ties :: int
  dropped :: bool
  win_rate :: real
  played :: int

record world =
  stop_evt :: bool
  error_count :: int
  printed :: "string list"
  acquired :: nat
  requested :: "string list"
  tourneys :: "string list"
  deck_urls :: "string list"
  matches :: "match list"

definition init_world :: world where
  "init_world =
     \<lparr>stop_evt = False, error_count = 0, printed = [], acquired = 0, requested = [],
      tourneys = [], deck_urls = [], matches = []\<rparr>"

text \<open>
  \<^verbatim>\<open>
  async def _get(session, pacer, url, stop_evt):
      if stop_evt.is_set():
          raise asyncio.CancelledError
      await pacer.acquire()
      try:
          async with session.get(url, timeout=...) as r:
              r.raise_for_status()
              return await r.text()
      except Exception as e:
          if not stop_evt.is_set():
              print(f"[fail-fast] error on {url}")
              if isinstance(e, aiohttp.ClientResponseError):
                  print(f"[fail-fast] HTTP {e.status}: {e.message}")
              else:
                  print(f"[fail-fast] {type(e).__name__}: {e}")
              stop_evt.set()
          raise
  \<close>
  \<open>_get\<close> suspends twice, in \<open>pacer.acquire()\<close> and in the network read, so it is three
  segments, each of which runs without interruption: \<open>get_enter\<close> up to the call of
  \<open>pacer.acquire()\<close>, \<open>get_send\<close> from the return of \<open>acquire\<close> to the issued request, and
  \<open>get_finish\<close> from the outcome of the request to the end of \<open>_get\<close>.
\<close>

definition get_enter :: "world \<Rightarrow> exc + world" where
  "get_enter w =
     (if stop_evt w then Inl CancelledError else Inr (w\<lparr>acquired := acquired w + 1\<rparr>))"

definition get_send :: "string \<Rightarrow> world \<Rightarrow> world" where
  "get_send u w = w\<lparr>requested := requested w @ [u]\<rparr>"

text \<open>
  The \<open>except Exception as e\<close> clause of \<open>_get\<close>: if the signal is not set, it prints the
  line with the URL and the line with the detail of the error, which is
  \<open>HTTP {e.status}: {e.message}\<close> for a \<open>ClientResponseError\<close> and
  \<open>{type(e).__name__}: {e}\<close> for anything else, and sets the signal; then it raises \<open>e\<close>
  again.
\<close>

definition announce :: "string \<Rightarrow> string \<Rightarrow> exc \<Rightarrow> world \<Rightarrow> (exc + page) \<times> world" where
  "announce u detail e w =
     (if \<not> stop_evt w
      then (Inl e, w\<lparr>printed := printed w @ [''[fail-fast] error on '' @ u, detail],
                     stop_evt := True\<rparr>)
      else (Inl e, w))"

fun get_finish :: "string \<Rightarrow> response \<Rightarrow> world \<Rightarrow> (exc + page) \<times> world" where
  "get_finish u (Body html) w = (Inr html, w)"
| "get_finish u (HttpError status message) w =
     announce u (''[fail-fast] HTTP '' @ str_int status @ '': '' @ message)
       (ClientResponseError status message) w"
| "get_finish u (TransportError name text) w =
     announce u (''[fail-fast] '' @ name @ '': '' @ text) (OtherError name text) w"

text \<open>A whole call of \<open>_get\<close>, answered with \<open>resp\<close>, when nothing else runs in between.\<close>

definition get :: "string \<Rightarrow> response \<Rightarrow> world \<Rightarrow> (exc + page) \<times> world" where
  "get u resp w =
     (case get_enter w of
        Inl e \<Rightarrow> (Inl e, w)
      | Inr w1 \<Rightarrow> get_finish u resp (get_send u w1))"

section \<open>The leaf record and the three kinds of task\<close>

text \<open>
  The parsers of the pages (\<open>_extract_standings\<close>, \<open>_extract_decks\<close>, \<open>_deck_has_card\<close>,
  \<open>_extract_details\<close>, \<open>_extract_archetype\<close>, \<open>_player_from_url\<close>) are functions of a
  page's text, built from regular expressions, and the pipeline treats them as given
  functions; so does the model. One of them can raise: \<open>_extract_details\<close> calls \<open>int\<close> on
  the numbers it finds, and \<open>int\<close> raises \<open>ValueError\<close> for a number of more than 4300
  digits. \<open>details_raise\<close> says for which pages it does, and \<open>extract_details\<close> is what it
  returns for the others. \<open>needle_of\<close> is \<open>card.strip().lower()\<close>.

  The record also holds the two tables of the Unicode database that the regular
  expression of \<open>_max_page\<close> and \<open>int\<close> consult: \<open>ci_match p c\<close>, whether under \<open>re.I\<close> the
  letter \<open>p\<close> of a pattern matches the character \<open>c\<close>, and \<open>decimal_value c\<close>, the value of
  \<open>c\<close> when it is a decimal digit (the characters that \<open>\d\<close> matches and \<open>int\<close> reads).
\<close>

record parsers =
  extract_standings :: "page \<Rightarrow> string list"
  extract_decks :: "page \<Rightarrow> string list"
  deck_has_card :: "page \<Rightarrow> string \<Rightarrow> bool"
  details_raise :: "page \<Rightarrow> bool"
  extract_details :: "page \<Rightarrow> int \<times> int \<times> int \<times> int \<times> bool"
  extract_archetype :: "page \<Rightarrow> string"
  player_from_url :: "string \<Rightarrow> string"
  needle_of :: "string \<Rightarrow> string"
  ci_match :: "char \<Rightarrow> nat \<Rightarrow> bool"
  decimal_value :: "nat \<Rightarrow> nat option"

text \<open>Python's \<open>/\<close> on integers: true division, which raises on a zero divisor.\<close>

definition truediv :: "int \<Rightarrow> int \<Rightarrow> exc + real" where
  "truediv a b = (if b = 0 then Inl ZeroDivisionError else Inr (real_of_int a / real_of_int b))"

text \<open>
  \<^verbatim>\<open>
  points, wins, losses, ties, dropped = _extract_details(html)
  denom = wins + losses
  win_rate = (wins / denom) if denom > 0 else 0.0
  matches.append({"url": url, "player": _player_from_url(url),
                  "archetype": _extract_archetype(html), "points": points,
                  "wins": wins, "losses": losses, "ties": ties, "dropped": dropped,
                  "win_rate": win_rate, "played": wins + losses + ties})
  \<close>
\<close>

definition deck_record :: "parsers \<Rightarrow> string \<Rightarrow> page \<Rightarrow> exc + match" where
  "deck_record P u html =
     (case extract_details P html of
        (points', wins', losses', ties', dropped') \<Rightarrow>
          (let denom = wins' + losses' in
           case (if denom > 0 then truediv wins' denom else Inr 0) of
             Inl e \<Rightarrow> Inl e
           | Inr win_rate' \<Rightarrow>
               Inr \<lparr>url = u, player = player_from_url P u,
                    archetype = extract_archetype P html, points = points',
                    wins = wins', losses = losses', ties = ties', dropped = dropped',
                    win_rate = win_rate', played = wins' + losses' + ties'\<rparr>))"

text \<open>
  The three task bodies of \<open>run\<close>: \<open>fetch_page\<close>, \<open>fetch_tourney\<close> and \<open>check_deck\<close>.
  \<open>on_page\<close> is what a task does with the page it fetched. In \<open>check_deck\<close> the call of
  \<open>_extract_details\<close> comes first, so when it raises nothing is appended.
\<close>

datatype task_kind = Fetch_page | Fetch_tourney | Check_deck

fun on_page :: "parsers \<Rightarrow> string \<Rightarrow> task_kind \<Rightarrow> string \<Rightarrow> page \<Rightarrow> world \<Rightarrow> exc + world" where
  "on_page P needle Fetch_page u html w =
     Inr (w\<lparr>tourneys := tourneys w @ extract_standings P html\<rparr>)"
| "on_page P needle Fetch_tourney u html w =
     Inr (w\<lparr>deck_urls := deck_urls w @ extract_decks P html\<rparr>)"
| "on_page P needle Check_deck u html w =
     (if deck_has_card P html needle then
        (if details_raise P html then Inl ValueError
         else
           (case deck_record P u html of
              Inl e \<Rightarrow> Inl e
            | Inr m \<Rightarrow> Inr (w\<lparr>matches := matches w @ [m]\<rparr>)))
      else Inr w)"

text \<open>
  The body of a task's \<open>except Exception:\<close> clause.
  \<^verbatim>\<open>
  fetch_page, fetch_tourney:        check_deck:
      error_count += 1                  error_count += 1
      stop_evt.set()                    if error_count >= FAIL_ON:
                                            stop_evt.set()
  \<close>
  \<open>FAIL_ON\<close> is a parameter here; the source sets it to 1.
\<close>

fun on_exception :: "int \<Rightarrow> task_kind \<Rightarrow> world \<Rightarrow> world" where
  "on_exception fail_on Check_deck w =
     (let w' = w\<lparr>error_count := error_count w + 1\<rparr>
      in if error_count w' \<ge> fail_on then w'\<lparr>stop_evt := True\<rparr> else w')"
| "on_exception fail_on kind w = w\<lparr>error_count := error_count w + 1, stop_evt := True\<rparr>"

section \<open>A stage: the tasks of one \<open>gather\<close>\<close>

text \<open>
  \<^verbatim>\<open>
  async def fetch_page(url):
      nonlocal error_count
      if stop_evt.is_set(): return
      try:
          async with sem_pages:
              html = await _get(session, pacer, url, stop_evt)
              tourneys.extend(_extract_standings(html))
      except Exception:
          error_count += 1
          stop_evt.set()
  \<close>
  A task is at one of these places: not yet run (\<open>NotStarted\<close>), suspended on the
  semaphore (\<open>WaitSem\<close>), suspended in \<open>pacer.acquire()\<close> (\<open>Acquiring\<close>), suspended in the
  network read (\<open>InFlight\<close>), ended by \<open>return\<close> or after its \<open>except\<close> clause
  (\<open>Finished\<close>), or ended by an exception that its \<open>except Exception\<close> clause does not
  catch (\<open>Cancelled\<close>).
\<close>

datatype phase = NotStarted | WaitSem | Acquiring | InFlight | Finished | Cancelled

record stage =
  world_of :: world
  sem :: nat
  tasks :: "(string \<times> phase) list"

definition set_phase :: "nat \<Rightarrow> phase \<Rightarrow> stage \<Rightarrow> stage" where
  "set_phase i ph s = s\<lparr>tasks := (tasks s)[i := (fst (tasks s ! i), ph)]\<rparr>"

text \<open>
  How a task ends when exception \<open>e\<close> reaches its \<open>try\<close>: the semaphore has been released
  by the \<open>async with\<close>, and the \<open>except Exception\<close> clause runs if \<open>e\<close> is an \<open>Exception\<close>.
\<close>

definition task_raises :: "int \<Rightarrow> task_kind \<Rightarrow> nat \<Rightarrow> exc \<Rightarrow> world \<Rightarrow> stage \<Rightarrow> stage" where
  "task_raises fail_on kind i e w s =
     (if is_Exception e
      then set_phase i Finished (s\<lparr>world_of := on_exception fail_on kind w, sem := sem s + 1\<rparr>)
      else set_phase i Cancelled (s\<lparr>world_of := w, sem := sem s + 1\<rparr>))"

text \<open>Task \<open>i\<close> has just taken the semaphore and calls \<open>_get\<close>.\<close>

definition enter_get :: "int \<Rightarrow> task_kind \<Rightarrow> nat \<Rightarrow> stage \<Rightarrow> stage" where
  "enter_get fail_on kind i s =
     (case get_enter (world_of s) of
        Inl e \<Rightarrow> task_raises fail_on kind i e (world_of s) (s\<lparr>sem := sem s - 1\<rparr>)
      | Inr w' \<Rightarrow> set_phase i Acquiring (s\<lparr>world_of := w', sem := sem s - 1\<rparr>))"

text \<open>
  The events of a stage: task \<open>i\<close> is run for the first time (\<open>Start\<close>), is given the
  semaphore it waited for (\<open>Grant\<close>), returns from \<open>pacer.acquire()\<close> (\<open>Paced\<close>), or gets
  the outcome of its request (\<open>Reply\<close>). An event that does not fit the place its task is
  at changes nothing.
\<close>

datatype event = Start nat | Grant nat | Paced nat | Reply nat response

definition at_phase :: "stage \<Rightarrow> nat \<Rightarrow> phase \<Rightarrow> bool" where
  "at_phase s i ph = (i < length (tasks s) \<and> snd (tasks s ! i) = ph)"

fun step :: "parsers \<Rightarrow> string \<Rightarrow> int \<Rightarrow> task_kind \<Rightarrow> event \<Rightarrow> stage \<Rightarrow> stage" where
  "step P needle fail_on kind (Start i) s =
     (if at_phase s i NotStarted then
        (if stop_evt (world_of s) then set_phase i Finished s
         else if sem s > 0 then enter_get fail_on kind i s
         else set_phase i WaitSem s)
      else s)"
| "step P needle fail_on kind (Grant i) s =
     (if at_phase s i WaitSem \<and> sem s > 0 then enter_get fail_on kind i s else s)"
| "step P needle fail_on kind (Paced i) s =
     (if at_phase s i Acquiring
      then set_phase i InFlight (s\<lparr>world_of := get_send (fst (tasks s ! i)) (world_of s)\<rparr>)
      else s)"
| "step P needle fail_on kind (Reply i resp) s =
     (if at_phase s i InFlight then
        (case get_finish (fst (tasks s ! i)) resp (world_of s) of
           (Inl e, w1) \<Rightarrow> task_raises fail_on kind i e w1 s
         | (Inr html, w1) \<Rightarrow>
             (case on_page P needle kind (fst (tasks s ! i)) html w1 of
                Inl e \<Rightarrow> task_raises fail_on kind i e w1 s
              | Inr w2 \<Rightarrow> set_phase i Finished (s\<lparr>world_of := w2, sem := sem s + 1\<rparr>)))
      else s)"

text \<open>
  \<open>asyncio.gather\<close> hands the first exception of a task on to its caller at once; until
  then the tasks run on.
\<close>

definition escaped :: "stage \<Rightarrow> bool" where
  "escaped s = (Cancelled \<in> snd ` set (tasks s))"

fun run_events :: "parsers \<Rightarrow> string \<Rightarrow> int \<Rightarrow> task_kind \<Rightarrow> event list \<Rightarrow> stage \<Rightarrow> stage" where
  "run_events P needle fail_on kind [] s = s"
| "run_events P needle fail_on kind (e # es) s =
     (if escaped s then s
      else run_events P needle fail_on kind es (step P needle fail_on kind e s))"

text \<open>
  What \<open>await gather(...)\<close> comes to for the caller: the exception that escaped a task,
  the join once every task has ended, or neither yet (\<open>Waiting\<close>: the schedule stops
  while a task is still suspended).
\<close>

datatype joined = Raised exc | Waiting | Joined

definition join :: "stage \<Rightarrow> joined" where
  "join s =
     (if escaped s then Raised CancelledError
      else if (\<forall>t\<in>set (tasks s). snd t = Finished) then Joined
      else Waiting)"

definition init_stage :: "nat \<Rightarrow> string list \<Rightarrow> world \<Rightarrow> stage" where
  "init_stage cap urls w = \<lparr>world_of = w, sem = cap, tasks = map (\<lambda>u. (u, NotStarted)) urls\<rparr>"

definition gather ::
  "parsers \<Rightarrow> string \<Rightarrow> int \<Rightarrow> task_kind \<Rightarrow> nat \<Rightarrow> string list \<Rightarrow> event list \<Rightarrow> world
     \<Rightarrow> joined \<times> world" where
  "gather P needle fail_on kind cap urls es w =
     (let s = run_events P needle fail_on kind es (init_stage cap urls w)
      in (join s, world_of s))"

section \<open>The listing pages: \<open>_max_page\<close> and \<open>_set_q\<close>\<close>

text \<open>The classes of ASCII characters.\<close>

definition is_digit :: "char \<Rightarrow> bool" where
  "is_digit c = (48 \<le> (of_char c :: nat) \<and> (of_char c :: nat) \<le> 57)"

definition is_upper :: "char \<Rightarrow> bool" where
  "is_upper c = (65 \<le> (of_char c :: nat) \<and> (of_char c :: nat) \<le> 90)"

definition is_lower :: "char \<Rightarrow> bool" where
  "is_lower c = (97 \<le> (of_char c :: nat) \<and> (of_char c :: nat) \<le> 122)"

definition lower_char :: "char \<Rightarrow> char" where
  "lower_char c = (if is_upper c then char_of ((of_char c :: nat) + 32) else c)"

text \<open>
  \<^verbatim>\<open>
  RE_DATA_MAX = re.compile(r'<ul[^>]*class="pagination"[^>]*data-max="(\d+)"', re.I)
  \<close>
  The pattern is a sequence of three kinds of item: a literal text, \<open>[^c]*\<close>, and the
  group \<open>(\d+)\<close>. Under \<open>re.I\<close> a letter of a literal matches the characters that the table
  \<open>ci_match\<close> gives for it, and any other character of a literal matches itself only;
  \<open>\d\<close> matches the characters that have a decimal value. \<open>match_at\<close> is the backtracking
  matcher of \<open>re\<close> for such a sequence, anchored at the start of its input: \<open>*\<close> and \<open>+\<close>
  are greedy, they take as much as they can and give back one character at a time. It
  returns the text of the group. \<open>MoreDigits\<close> is the rest of \<open>\d+\<close> after its first digit.
\<close>

datatype item = Lit string | StarNot char | Digits | MoreDigits

definition lit_match :: "parsers \<Rightarrow> char \<Rightarrow> nat \<Rightarrow> bool" where
  "lit_match P p c = (if is_upper p \<or> is_lower p then ci_match P p c else c = of_char p)"

fun lit_prefix :: "parsers \<Rightarrow> string \<Rightarrow> page \<Rightarrow> bool" where
  "lit_prefix P [] s = True"
| "lit_prefix P (l # ls) [] = False"
| "lit_prefix P (l # ls) (c # cs) = (lit_match P l c \<and> lit_prefix P ls cs)"

definition is_decimal :: "parsers \<Rightarrow> nat \<Rightarrow> bool" where
  "is_decimal P c = (decimal_value P c \<noteq> None)"

fun match_at :: "parsers \<Rightarrow> item list \<Rightarrow> page \<Rightarrow> page \<Rightarrow> page option" where
  "match_at P [] grp s = Some grp"
| "match_at P (Lit l # items) grp s =
     (if lit_prefix P l s then match_at P items grp (drop (length l) s) else None)"
| "match_at P (StarNot c # items) grp [] = match_at P items grp []"
| "match_at P (StarNot c # items) grp (x # xs) =
     (if x \<noteq> of_char c then
        (case match_at P (StarNot c # items) grp xs of
           Some g \<Rightarrow> Some g
         | None \<Rightarrow> match_at P items grp (x # xs))
      else match_at P items grp (x # xs))"
| "match_at P (Digits # items) grp [] = None"
| "match_at P (Digits # items) grp (x # xs) =
     (if is_decimal P x then match_at P (MoreDigits # items) [x] xs else None)"
| "match_at P (MoreDigits # items) grp [] = match_at P items grp []"
| "match_at P (MoreDigits # items) grp (x # xs) =
     (if is_decimal P x then
        (case match_at P (MoreDigits # items) (grp @ [x]) xs of
           Some g \<Rightarrow> Some g
         | None \<Rightarrow> match_at P items grp (x # xs))
      else match_at P items grp (x # xs))"

text \<open>\<open>pattern.search(text)\<close>: the match at the leftmost position that has one.\<close>

fun search :: "parsers \<Rightarrow> item list \<Rightarrow> page \<Rightarrow> page option" where
  "search P items [] = match_at P items [] []"
| "search P items (x # xs) =
     (case match_at P items [] (x # xs) of
        Some g \<Rightarrow> Some g
      | None \<Rightarrow> search P items xs)"

definition RE_DATA_MAX :: "item list" where
  "RE_DATA_MAX =
     [Lit ''<ul'', StarNot CHR ''>'', Lit ''class=\"pagination\"'', StarNot CHR ''>'',
      Lit ''data-max=\"'', Digits, Lit ''\"'']"

text \<open>
  \<open>int\<close> of the text of the group. The number is read from the decimal values of its
  digits. \<open>int\<close> raises \<open>ValueError\<close> when the text has more than 4300 digits (the default
  of \<open>sys.int_info.default_max_str_digits\<close>), and for a text that is empty or has a
  character without a decimal value; it also accepts a sign, blanks and underscores,
  which \<open>\d+\<close> never captures.
\<close>

definition INT_MAX_STR_DIGITS :: nat where
  "INT_MAX_STR_DIGITS = 4300"

definition digits_value :: "parsers \<Rightarrow> page \<Rightarrow> int" where
  "digits_value P ds =
     foldl (\<lambda>n c. 10 * n + (case decimal_value P c of Some v \<Rightarrow> int v | None \<Rightarrow> 0)) 0 ds"

definition py_int :: "parsers \<Rightarrow> page \<Rightarrow> exc + int" where
  "py_int P ds =
     (if ds = [] \<or> \<not> list_all (is_decimal P) ds then Inl ValueError
      else if INT_MAX_STR_DIGITS < length ds then Inl ValueError
      else Inr (digits_value P ds))"

text \<open>
  \<^verbatim>\<open>
  def _max_page(html):
      m = RE_DATA_MAX.search(html)
      return int(m.group(1)) if m else 1
  \<close>
\<close>

definition max_page :: "parsers \<Rightarrow> page \<Rightarrow> exc + int" where
  "max_page P html = (case search P RE_DATA_MAX html of Some g \<Rightarrow> py_int P g | None \<Rightarrow> Inr 1)"


subsection \<open>\<open>_set_q\<close>\<close>

text \<open>
  \<open>urllib.parse.quote_plus\<close> and \<open>unquote_plus\<close> on ASCII text: letters, digits and
  \<open>_.-~\<close> stand for themselves, a blank is written \<open>+\<close>, and any other character is
  written \<open>%XX\<close>.
\<close>

definition url_safe :: "char \<Rightarrow> bool" where
  "url_safe c = (is_digit c \<or> is_upper c \<or> is_lower c \<or> c \<in> set ''_.-~'')"

definition hex_char :: "nat \<Rightarrow> char" where
  "hex_char n = (if n < 10 then char_of (48 + n) else char_of (55 + n))"

definition quote_char :: "char \<Rightarrow> string" where
  "quote_char c =
     (if url_safe c then [c]
      else if c = CHR '' '' then ''+''
      else [CHR ''%'', hex_char ((of_char c :: nat) div 16), hex_char ((of_char c :: nat) mod 16)])"

definition quote_plus :: "string \<Rightarrow> string" where
  "quote_plus s = concat (map quote_char s)"

definition hex_val :: "char \<Rightarrow> nat option" where
  "hex_val c =
     (let n = (of_char c :: nat) in
      if 48 \<le> n \<and> n \<le> 57 then Some (n - 48)
      else if 65 \<le> n \<and> n \<le> 70 then Some (n - 55)
      else if 97 \<le> n \<and> n \<le> 102 then Some (n - 87)
      else None)"

fun unquote :: "string \<Rightarrow> string" where
  "unquote [] = []"
| "unquote [c] = [c]"
| "unquote [c, d] = [c, d]"
| "unquote (c # a # b # r) =
     (if c = CHR ''%'' then
        (case (hex_val a, hex_val b) of
           (Some h, Some l) \<Rightarrow> char_of (16 * h + l) # unquote r
         | _ \<Rightarrow> c # unquote (a # b # r))
      else c # unquote (a # b # r))"

definition unquote_plus :: "string \<Rightarrow> string" where
  "unquote_plus s = unquote (map (\<lambda>c. if c = CHR ''+'' then CHR '' '' else c) s)"

text \<open>\<open>s.split(sep)\<close> for a separator of one character, and \<open>s.split(sep, 1)\<close>.\<close>

fun split_on :: "char \<Rightarrow> string \<Rightarrow> string list" where
  "split_on sep [] = [[]]"
| "split_on sep (c # cs) =
     (if c = sep then [] # split_on sep cs
      else (case split_on sep cs of
              [] \<Rightarrow> [[c]]
            | p # ps \<Rightarrow> (c # p) # ps))"

definition split_once :: "char \<Rightarrow> string \<Rightarrow> string \<times> string option" where
  "split_once sep s =
     (let a = takeWhile (\<lambda>c. c \<noteq> sep) s
      in if length a < length s then (a, Some (drop (length a + 1) s)) else (a, None))"

text \<open>
  \<open>parse_qs(query, keep_blank_values=True)\<close>: the fields between \<open>&\<close>, each split at its
  first \<open>=\<close>, gathered by name in the order in which the names first occur (a \<open>dict\<close>
  keeps insertion order).
\<close>

definition add_value :: "string \<Rightarrow> string \<Rightarrow> (string \<times> string list) list \<Rightarrow> (string \<times> string list) list" where
  "add_value name v q =
     (case map_of q name of
        Some vs \<Rightarrow> AList.update name (vs @ [v]) q
      | None \<Rightarrow> q @ [(name, [v])])"

definition parse_qs :: "string \<Rightarrow> (string \<times> string list) list" where
  "parse_qs query =
     foldl (\<lambda>q field.
              if field = [] then q
              else (case split_once CHR ''='' field of
                      (n, Some v) \<Rightarrow> add_value (unquote_plus n) (unquote_plus v) q
                    | (n, None) \<Rightarrow> add_value (unquote_plus n) [] q))
       [] (split_on CHR ''&'' query)"

text \<open>\<open>urlencode(q, doseq=True)\<close> for a dictionary of lists of texts.\<close>

fun join_with :: "string \<Rightarrow> string list \<Rightarrow> string" where
  "join_with sep [] = []"
| "join_with sep [x] = x"
| "join_with sep (x # y # ys) = x @ sep @ join_with sep (y # ys)"

definition urlencode :: "(string \<times> string list) list \<Rightarrow> string" where
  "urlencode q =
     join_with ''&''
       (concat (map (\<lambda>(k, vs). map (\<lambda>v. quote_plus k @ ''='' @ quote_plus v) vs) q))"

text \<open>
  \<^verbatim>\<open>
  def _set_q(url, key, value):
      u = urlparse(url)
      q = parse_qs(u.query, keep_blank_values=True)
      q[key] = [value]
      return u._replace(query=urlencode(q, doseq=True)).geturl()
  \<close>
  \<open>urlparse\<close> and \<open>geturl\<close> are modelled for the URLs the program gives them: a lower-case
  scheme, no parameters and no fragment, so that the URL is the part before the first
  \<open>?\<close> and the query after it, and \<open>geturl\<close> puts the two together again.
\<close>

definition set_q :: "string \<Rightarrow> string \<Rightarrow> string \<Rightarrow> string" where
  "set_q u key v =
     (case split_once CHR ''?'' u of
        (front, query) \<Rightarrow>
          (let q = parse_qs (case query of Some t \<Rightarrow> t | None \<Rightarrow> []);
               q' = AList.update key [v] q;
               query' = urlencode q'
           in if query' = [] then front else front @ ''?'' @ query'))"

definition BASE :: string where
  "BASE = ''https://play.limitlesstcg.com''"

definition LIST_URL :: string where
  "LIST_URL = BASE @ ''/tournaments/completed''
     @ ''?game=PTCG&format=STANDARD&platform=all&type=online&time=4weeks&show=100''"

text \<open>
  \<^verbatim>\<open>
  pages = [LIST_URL] + [_set_q(LIST_URL, "page", str(p)) for p in range(2, maxp + 1)]
  \<close>
\<close>

definition page_urls :: "int \<Rightarrow> string list" where
  "page_urls maxp = LIST_URL # map (\<lambda>p. set_q LIST_URL ''page'' (str_int p)) [2..maxp]"

section \<open>The orchestrator: \<open>run\<close>\<close>

text \<open>The constants of the module that the pipeline reads.\<close>

record config =
  fail_on :: int
  concurrency_pages :: nat
  concurrency_decks :: nat

definition FAIL_ON :: int where
  "FAIL_ON = 1"

definition CONCURRENCY_PAGES :: nat where
  "CONCURRENCY_PAGES = 12"

definition CONCURRENCY_DECKS :: nat where
  "CONCURRENCY_DECKS = 180"

definition source_config :: config where
  "source_config =
     \<lparr>fail_on = FAIL_ON, concurrency_pages = CONCURRENCY_PAGES,
      concurrency_decks = CONCURRENCY_DECKS\<rparr>"

text \<open>
  What a call of \<open>run\<close> comes to: an exception that leaves \<open>run\<close>, the returned triple, or
  neither yet (\<open>Pending\<close>, when a stage is still waiting for a task).
\<close>

datatype outcome = Raises exc | Pending | Returns int int "match list"

text \<open>
  \<open>run\<close> in its source order, one definition for each stage. The first listing page is
  fetched by a plain \<open>await _get(...)\<close> and its page count is read by \<open>_max_page\<close>, both
  outside any \<open>try\<close>, so what they raise leaves \<open>run\<close>; then the three \<open>gather\<close>s
  follow, each with its schedule of events, and after the first two the check
  \<open>if stop_evt.is_set(): return ...\<close>.
  \<^verbatim>\<open>
  first = await _get(session, pacer, LIST_URL, stop_evt)
  maxp = _max_page(first)
  pages = [LIST_URL] + [...]
  await asyncio.gather(*(fetch_page(u) for u in pages))
  uniq_tourneys = _dedupe_keep_order(tourneys)
  if stop_evt.is_set():
      return 0, 0, matches
  await asyncio.gather(*(fetch_tourney(u) for u in uniq_tourneys))
  uniq_decks = _dedupe_keep_order(deck_urls)
  if stop_evt.is_set():
      return len(uniq_tourneys), len(uniq_decks), matches
  needle = card.strip().lower()
  await asyncio.gather(*(check_deck(u) for u in uniq_decks))
  return len(uniq_tourneys), len(uniq_decks), matches
  \<close>
\<close>

definition collecting ::
  "parsers \<Rightarrow> config \<Rightarrow> string \<Rightarrow> string list \<Rightarrow> string list \<Rightarrow> event list \<Rightarrow> world
     \<Rightarrow> outcome \<times> world" where
  "collecting P cfg cname uniq_tourneys uniq_decks es3 w2 =
     (case gather P (needle_of P cname) (fail_on cfg) Check_deck (concurrency_decks cfg)
             uniq_decks es3 w2 of
        (Raised e, w3) \<Rightarrow> (Raises e, w3)
      | (Waiting, w3) \<Rightarrow> (Pending, w3)
      | (Joined, w3) \<Rightarrow>
          (Returns (int (length uniq_tourneys)) (int (length uniq_decks)) (matches w3), w3))"

definition expanding ::
  "parsers \<Rightarrow> config \<Rightarrow> string \<Rightarrow> string list \<Rightarrow> event list \<Rightarrow> event list \<Rightarrow> world
     \<Rightarrow> outcome \<times> world" where
  "expanding P cfg cname uniq_tourneys es2 es3 w1 =
     (case gather P (needle_of P cname) (fail_on cfg) Fetch_tourney (concurrency_pages cfg)
             uniq_tourneys es2 w1 of
        (Raised e, w2) \<Rightarrow> (Raises e, w2)
      | (Waiting, w2) \<Rightarrow> (Pending, w2)
      | (Joined, w2) \<Rightarrow>
          (let uniq_decks = dedupe_keep_order (deck_urls w2) in
           if stop_evt w2
           then (Returns (int (length uniq_tourneys)) (int (length uniq_decks)) (matches w2), w2)
           else collecting P cfg cname uniq_tourneys uniq_decks es3 w2))"

definition listing ::
  "parsers \<Rightarrow> config \<Rightarrow> string \<Rightarrow> page \<Rightarrow> event list \<Rightarrow> event list \<Rightarrow> event list \<Rightarrow> world
     \<Rightarrow> outcome \<times> world" where
  "listing P cfg cname first es1 es2 es3 w0 =
     (case max_page P first of
        Inl e \<Rightarrow> (Raises e, w0)
      | Inr maxp \<Rightarrow>
          (let pages = page_urls maxp in
           case gather P (needle_of P cname) (fail_on cfg) Fetch_page (concurrency_pages cfg)
                  pages es1 w0 of
             (Raised e, w1) \<Rightarrow> (Raises e, w1)
           | (Waiting, w1) \<Rightarrow> (Pending, w1)
           | (Joined, w1) \<Rightarrow>
               (let uniq_tourneys = dedupe_keep_order (tourneys w1) in
                if stop_evt w1 then (Returns 0 0 (matches w1), w1)
                else expanding P cfg cname uniq_tourneys es2 es3 w1)))"

definition run ::
  "parsers \<Rightarrow> config \<Rightarrow> string \<Rightarrow> response \<Rightarrow> event list \<Rightarrow> event list \<Rightarrow> event list
     \<Rightarrow> outcome \<times> world" where
  "run P cfg cname resp es1 es2 es3 =
     (case get LIST_URL resp init_world of
        (Inl e, w0) \<Rightarrow> (Raises e, w0)
      | (Inr first, w0) \<Rightarrow> listing P cfg cname first es1 es2 es3 w0)"

section \<open>Auxiliary notions for the statements\<close>

text \<open>The exception that \<open>_get\<close> raises for a response, if it raises one.\<close>

fun failure_of :: "response \<Rightarrow> exc option" where
  "failure_of (Body html) = None"
| "failure_of (HttpError status message) = Some (ClientResponseError status message)"
| "failure_of (TransportError name text) = Some (OtherError name text)"

text \<open>
  The output of a run holds either nothing or one announcement: the line with a URL
  that was requested and the line with the detail of an error, status and message of a
  response or class and text of another error. In the second case the signal is set.
\<close>

definition is_detail :: "string \<Rightarrow> bool" where
  "is_detail d =
     ((\<exists>status message. d = ''[fail-fast] HTTP '' @ str_int status @ '': '' @ message)
      \<or> (\<exists>name text. d = ''[fail-fast] '' @ name @ '': '' @ text))"

definition announced_once :: "world \<Rightarrow> bool" where
  "announced_once w =
     (printed w = []
      \<or> (stop_evt w
          \<and> (\<exists>u\<in>set (requested w). \<exists>d. is_detail d
                \<and> printed w = [''[fail-fast] error on '' @ u, d])))"

text \<open>The requests in flight have been issued.\<close>

definition sent :: "stage \<Rightarrow> bool" where
  "sent s = list_all (\<lambda>t. snd t = InFlight \<longrightarrow> fst t \<in> set (requested (world_of s))) (tasks s)"


text \<open>What \<open>check_deck\<close> computes for the two derived fields of a record.\<close>

definition record_ok :: "match \<Rightarrow> bool" where
  "record_ok m =
     (win_rate m = (if 0 < wins m + losses m
                    then real_of_int (wins m) / real_of_int (wins m + losses m) else 0)
      \<and> played m = wins m + losses m + ties m)"

text \<open>Every accumulated record has these derived fields.\<close>

definition records_ok :: "world \<Rightarrow> bool" where
  "records_ok w = list_all record_ok (matches w)"

text \<open>
  What the stages return. \<open>partial_results out w\<close>: \<open>out\<close> is a returned triple whose
  records are the accumulator \<open>matches\<close> of \<open>w\<close> and whose leaf count is the size of the
  deduplicated \<open>deck_urls\<close> of \<open>w\<close>.
\<close>

definition partial_results :: "outcome \<Rightarrow> world \<Rightarrow> bool" where
  "partial_results out w =
     (case out of
        Returns a b ms \<Rightarrow>
          b = int (length (dedupe_keep_order (deck_urls w))) \<and> ms = matches w
      | _ \<Rightarrow> False)"

text \<open>
  The schedule that runs the tasks of a stage one after the other, task \<open>i\<close> from its
  start to the outcome \<open>net\<close> gives for its URL. While it runs, the tasks before position
  \<open>k\<close> have ended and those from \<open>k\<close> on have not started (\<open>done_upto\<close>), or task \<open>k\<close> is on
  its way (\<open>busy_at\<close>).
\<close>

definition sequential :: "(string \<Rightarrow> response) \<Rightarrow> string list \<Rightarrow> event list" where
  "sequential net urls =
     concat (map (\<lambda>i. [Start i, Paced i, Reply i (net (urls ! i))]) [0..<length urls])"

definition done_upto :: "nat \<Rightarrow> string list \<Rightarrow> (string \<times> phase) list" where
  "done_upto k urls =
     map (\<lambda>u. (u, Finished)) (take k urls) @ map (\<lambda>u. (u, NotStarted)) (drop k urls)"

definition busy_at :: "nat \<Rightarrow> phase \<Rightarrow> string list \<Rightarrow> (string \<times> phase) list" where
  "busy_at k ph urls =
     map (\<lambda>u. (u, Finished)) (take k urls) @ (urls ! k, ph)
       # map (\<lambda>u. (u, NotStarted)) (drop (Suc k) urls)"

text \<open>
  A stage that has no more tasks than permits: the free permits and the tasks that hold
  one add up to the cap, and no task waits for the semaphore or was cancelled.
\<close>

definition holds_permit :: "phase \<Rightarrow> bool" where
  "holds_permit ph = (ph = Acquiring \<or> ph = InFlight)"

definition permits_held :: "stage \<Rightarrow> nat" where
  "permits_held s = length (filter (\<lambda>t. holds_permit (snd t)) (tasks s))"

definition unqueued :: "nat \<Rightarrow> stage \<Rightarrow> bool" where
  "unqueued cap s =
     (sem s + permits_held s = cap \<and> length (tasks s) \<le> cap
      \<and> list_all (\<lambda>t. snd t \<noteq> WaitSem \<and> snd t \<noteq> Cancelled) (tasks s))"


text \<open>
  A small instance for the examples: a listing page \<open>L\<close> without pagination that links
  one tournament, a listing page \<open>M\<close> without pagination that links thirteen, a
  tournament page \<open>T\<close> that links two decks, and deck pages that
  hold the card exactly when their text begins with the needle; every deck reads 6
  points and the record 2-1-1, but for a deck page of more than 4300 characters, on which
  \<open>_extract_details\<close> is taken to raise. The tables are those of ASCII, and the needle is
  made by the ASCII \<open>strip\<close> and \<open>lower\<close>.
\<close>

definition is_space :: "char \<Rightarrow> bool" where
  "is_space c =
     (let n = (of_char c :: nat) in (9 \<le> n \<and> n \<le> 13) \<or> (28 \<le> n \<and> n \<le> 32))"

definition ascii_needle :: "string \<Rightarrow> string" where
  "ascii_needle cname =
     map lower_char (rev (dropWhile is_space (rev (dropWhile is_space cname))))"

definition demo_parsers :: parsers where
  "demo_parsers =
     \<lparr>extract_standings =
        (\<lambda>html. if html = asc ''L'' then [''t1'']
                else if html = asc ''M''
                then [''t01'', ''t02'', ''t03'', ''t04'', ''t05'', ''t06'', ''t07'', ''t08'',
                      ''t09'', ''t10'', ''t11'', ''t12'', ''t13'']
                else []),
      extract_decks = (\<lambda>html. if html = asc ''T'' then [''d1'', ''d2''] else []),
      deck_has_card = (\<lambda>html needle. take (length needle) html = asc needle),
      details_raise = (\<lambda>html. 4300 < length html),
      extract_details = (\<lambda>html. (6, 2, 1, 1, False)),
      extract_archetype = (\<lambda>html. ''Other''),
      player_from_url = (\<lambda>u. ''Ash''),
      needle_of = ascii_needle,
      ci_match = (\<lambda>p c. c < 128 \<and> lower_char (char_of c) = lower_char p),
      decimal_value = (\<lambda>c. if 48 \<le> c \<and> c \<le> 57 then Some (c - 48) else None)\<rparr>"
section \<open>Properties of the deduplicator\<close>

lemma dedupe_loop_snoc:
  "dedupe_loop (urls @ [u]) s =
     (case dedupe_loop urls s of (seen, out) \<Rightarrow>
        if u \<notin> seen then (insert u seen, out @ [u]) else (seen, out))"
  by (induction urls s rule: dedupe_loop.induct) auto

lemma dedupe_loop_seen: "fst (dedupe_loop urls (seen, out)) = seen \<union> set urls"
  by (induction urls "(seen, out)" arbitrary: seen out rule: dedupe_loop.induct) auto

lemma dedupe_snoc:
  "dedupe_keep_order (urls @ [u]) =
     (if u \<in> set urls then dedupe_keep_order urls else dedupe_keep_order urls @ [u])"
proof -
  obtain seen out where l: "dedupe_loop urls ({}, []) = (seen, out)"
    by (cases "dedupe_loop urls ({}, [])")
  have "seen = set urls"
    using dedupe_loop_seen [of urls "{}" "[]"] l by simp
  then show ?thesis
    by (simp add: dedupe_keep_order_def dedupe_loop_snoc l)
qed

lemma dedupe_Nil: "dedupe_keep_order [] = []"
  by (simp add: dedupe_keep_order_def)

lemma first_occurrences_snoc:
  "first_occurrences (urls @ [u]) =
     (if u \<in> set urls then first_occurrences urls else first_occurrences urls @ [u])"
proof -
  let ?n = "length urls"
  have keep: "filter (\<lambda>i. (urls @ [u]) ! i \<notin> set (take i (urls @ [u]))) [0..<?n]
        = filter (\<lambda>i. urls ! i \<notin> set (take i urls)) [0..<?n]"
    by (rule filter_cong) (auto simp: nth_append)
  have pick: "map (\<lambda>i. (urls @ [u]) ! i) (filter (\<lambda>i. urls ! i \<notin> set (take i urls)) [0..<?n])
        = map (\<lambda>i. urls ! i) (filter (\<lambda>i. urls ! i \<notin> set (take i urls)) [0..<?n])"
    by (rule map_cong) (auto simp: nth_append)
  have "first_occurrences (urls @ [u]) =
      map (\<lambda>i. (urls @ [u]) ! i)
        (filter (\<lambda>i. (urls @ [u]) ! i \<notin> set (take i (urls @ [u]))) [0..<?n])
      @ (if u \<in> set urls then [] else [u])"
    unfolding first_occurrences_def by simp
  then show ?thesis
    unfolding keep pick first_occurrences_def by simp
qed

lemma dedupe_is_first_occurrences: "dedupe_keep_order urls = first_occurrences urls"
proof (induction urls rule: rev_induct)
  case Nil
  show ?case by (simp add: dedupe_Nil first_occurrences_def)
next
  case (snoc u urls)
  then show ?case by (simp add: dedupe_snoc first_occurrences_snoc)
qed

lemma dedupe_set: "set (dedupe_keep_order urls) = set urls"
  by (induction urls rule: rev_induct) (auto simp: dedupe_Nil dedupe_snoc)

lemma dedupe_distinct: "distinct (dedupe_keep_order urls)"
  by (induction urls rule: rev_induct) (auto simp: dedupe_Nil dedupe_snoc dedupe_set)

lemma dedupe_subseq: "subseq (dedupe_keep_order urls) urls"
proof (induction urls rule: rev_induct)
  case Nil
  show ?case by (simp add: dedupe_Nil)
next
  case (snoc u urls)
  have "subseq (dedupe_keep_order urls) (urls @ [u])"
    using snoc by (rule list_emb_prefix)
  moreover have "subseq (dedupe_keep_order urls @ [u]) (urls @ [u])"
    using snoc by (simp add: list_emb_append_mono)
  ultimately show ?case by (simp add: dedupe_snoc)
qed

lemma dedupe_of_distinct: "distinct urls \<Longrightarrow> dedupe_keep_order urls = urls"
  by (induction urls rule: rev_induct) (auto simp: dedupe_Nil dedupe_snoc)

lemma dedupe_length_le: "length (dedupe_keep_order urls) \<le> length urls"
  by (induction urls rule: rev_induct) (auto simp: dedupe_Nil dedupe_snoc)

section \<open>Properties of the rate limiter\<close>

lemma evict_split:
  "\<exists>gone. ss = gone @ evict now ss \<and> (\<forall>a\<in>set gone. a + 1 \<le> now)"
proof (induction ss)
  case Nil
  show ?case by simp
next
  case (Cons s ss)
  show ?case
  proof (cases "now - s \<ge> 1")
    case True
    from Cons obtain gone where g: "ss = gone @ evict now ss" "\<forall>a\<in>set gone. a + 1 \<le> now"
      by blast
    have "s # ss = (s # gone) @ evict now (s # ss)"
      using True g(1) by simp
    moreover have "\<forall>a\<in>set (s # gone). a + 1 \<le> now"
      using True g(2) by simp
    ultimately show ?thesis by blast
  next
    case False
    then have "s # ss = [] @ evict now (s # ss)" by simp
    then show ?thesis by (metis empty_iff list.set(1))
  qed
qed

lemma evict_length_le: "length (evict now ss) \<le> length ss"
  by (induction ss) auto

lemma limiter_inv_init: "limiter_inv (init_limiter r t0)"
  by (simp add: limiter_inv_def window_tail_def init_limiter_def FixedPacer_def
      admitted_in_window_def)

lemma limiter_inv_elapse:
  assumes "limiter_inv s"
  shows "limiter_inv (pstep (Elapse d) s)"
proof -
  have c: "clock s \<le> clock s + max 0 d" by simp
  from assms obtain old where
    o: "admissions s = old @ starts (pacer_of s)" "\<forall>a\<in>set old. a + 1 \<le> clock s"
    unfolding limiter_inv_def window_tail_def by blast
  have "\<forall>a\<in>set old. a + 1 \<le> clock s + max 0 d"
    using o(2) c by fastforce
  then have "window_tail (pstep (Elapse d) s)"
    unfolding window_tail_def using o(1) by auto
  moreover have "\<forall>a\<in>set (admissions s). a \<le> clock s + max 0 d"
    using assms c unfolding limiter_inv_def by fastforce
  ultimately show ?thesis
    using assms by (simp add: limiter_inv_def admitted_in_window_def)
qed

text \<open>What the locked block does to the pacer, case by case.\<close>

lemma locked_block_Admit:
  assumes "locked_block now r p = Admit p' j"
  shows "starts p' = evict now (starts p) @ [now]"
    and "rps p' = rps p"
    and "int (length (evict now (starts p))) < rps p"
    and "total_started p' = total_started p + 1"
  using assms
  by (auto simp: locked_block_def Let_def split: if_splits list.splits)

lemma locked_block_Retry:
  assumes "locked_block now r p = Retry p' d"
  shows "starts p' = evict now (starts p)"
    and "rps p' = rps p"
    and "total_started p' = total_started p"
  using assms
  by (auto simp: locked_block_def Let_def split: if_splits list.splits)

lemma locked_block_NoHead:
  assumes "locked_block now r p = NoHead p'"
  shows "starts p' = evict now (starts p)"
    and "rps p' = rps p"
    and "total_started p' = total_started p"
  using assms
  by (auto simp: locked_block_def Let_def split: if_splits list.splits)

text \<open>One admission at the current clock reading keeps the invariant.\<close>

lemma admit_keeps_inv:
  assumes inv: "limiter_inv s"
    and adm: "locked_block (clock s) r (pacer_of s) = Admit p' j"
    and s': "pacer_of s' = p'" "clock s' = clock s" "admissions s' = admissions s @ [clock s]"
  shows "limiter_inv s'"
proof -
  let ?now = "clock s"
  let ?ss = "evict ?now (starts (pacer_of s))"
  from inv obtain old where
    o: "admissions s = old @ starts (pacer_of s)" "\<forall>a\<in>set old. a + 1 \<le> ?now"
    unfolding limiter_inv_def window_tail_def by blast
  obtain gone where
    g: "starts (pacer_of s) = gone @ ?ss" "\<forall>a\<in>set gone. a + 1 \<le> ?now"
    using evict_split by blast
  have st: "starts p' = ?ss @ [?now]" and rp: "rps p' = rps (pacer_of s)"
    and room: "int (length ?ss) < rps (pacer_of s)"
    using locked_block_Admit [OF adm] by simp_all
  have log: "admissions s = (old @ gone) @ ?ss"
    using o(1) g(1) by simp
  have aged: "\<forall>a\<in>set (old @ gone). a + 1 \<le> ?now"
    using o(2) g(2) by auto
  have tail: "window_tail s'"
    unfolding window_tail_def
  proof (intro exI conjI)
    show "admissions s' = (old @ gone) @ starts (pacer_of s')"
      using s' st log by simp
    show "\<forall>a\<in>set (old @ gone). a + 1 \<le> clock s'"
      using aged s' by simp
  qed
  have past: "\<forall>a\<in>set (admissions s'). a \<le> clock s'"
    using inv s' unfolding limiter_inv_def by auto
  have win: "int (admitted_in_window t s') \<le> rps (pacer_of s')" for t
  proof (cases "trailing_window t ?now")
    case False
    then have "admitted_in_window t s' = admitted_in_window t s"
      using s' by (simp add: admitted_in_window_def)
    then show ?thesis
      using inv s' rp unfolding limiter_inv_def by simp
  next
    case True
    have "filter (trailing_window t) (old @ gone) = []"
    proof -
      have "\<not> trailing_window t a" if "a \<in> set (old @ gone)" for a
      proof -
        have "a + 1 \<le> ?now" using aged that by blast
        moreover have "?now \<le> t" using True by (simp add: trailing_window_def)
        ultimately show ?thesis by (simp add: trailing_window_def)
      qed
      then show ?thesis by (simp add: filter_empty_conv)
    qed
    then have "filter (trailing_window t) (admissions s) = filter (trailing_window t) ?ss"
      using log by simp
    then have "length (filter (trailing_window t) (admissions s)) \<le> length ?ss"
      by simp
    then have "admitted_in_window t s' \<le> length ?ss + 1"
      using s' True by (simp add: admitted_in_window_def)
    then show ?thesis
      using room rp s' by simp
  qed
  show ?thesis
    unfolding limiter_inv_def using tail past win by blast
qed

text \<open>A rejection only evicts, and keeps the invariant as well.\<close>

lemma evict_keeps_inv:
  assumes inv: "limiter_inv s"
    and s': "starts (pacer_of s') = evict (clock s) (starts (pacer_of s))"
      "rps (pacer_of s') = rps (pacer_of s)"
      "clock s' = clock s" "admissions s' = admissions s"
  shows "limiter_inv s'"
proof -
  let ?now = "clock s"
  let ?ss = "evict ?now (starts (pacer_of s))"
  from inv obtain old where
    o: "admissions s = old @ starts (pacer_of s)" "\<forall>a\<in>set old. a + 1 \<le> ?now"
    unfolding limiter_inv_def window_tail_def by blast
  obtain gone where
    g: "starts (pacer_of s) = gone @ ?ss" "\<forall>a\<in>set gone. a + 1 \<le> ?now"
    using evict_split by blast
  have tail: "window_tail s'"
    unfolding window_tail_def
  proof (intro exI conjI)
    show "admissions s' = (old @ gone) @ starts (pacer_of s')"
      using s' o(1) g(1) by simp
    show "\<forall>a\<in>set (old @ gone). a + 1 \<le> clock s'"
      using o(2) g(2) s' by auto
  qed
  show ?thesis
    using inv tail s' by (simp add: limiter_inv_def admitted_in_window_def)
qed

lemma limiter_inv_enter_lock:
  assumes "limiter_inv s"
  shows "limiter_inv (enter_lock i r s)"
proof (cases "lock_holder s \<noteq> None")
  case True
  then have "enter_lock i r s = s\<lparr>callers := (callers s)(i := WaitingLock)\<rparr>"
    by (simp add: enter_lock_def)
  then show ?thesis
    using assms by (simp add: limiter_inv_def window_tail_def admitted_in_window_def)
next
  case False
  then have free: "lock_holder s = None" by simp
  show ?thesis
  proof (cases "locked_block (clock s) r (pacer_of s)")
    case (Admit p' j)
    show ?thesis
    proof (rule admit_keeps_inv [OF assms Admit])
      show "pacer_of (enter_lock i r s) = p'"
        using free Admit by (simp add: enter_lock_def split: option.splits)
      show "clock (enter_lock i r s) = clock s"
        using free Admit by (simp add: enter_lock_def split: option.splits)
      show "admissions (enter_lock i r s) = admissions s @ [clock s]"
        using free Admit by (simp add: enter_lock_def split: option.splits)
    qed
  next
    case (Retry p' d)
    show ?thesis
    proof (rule evict_keeps_inv [OF assms])
      show "starts (pacer_of (enter_lock i r s)) = evict (clock s) (starts (pacer_of s))"
        using free Retry locked_block_Retry(1) [OF Retry] by (simp add: enter_lock_def)
      show "rps (pacer_of (enter_lock i r s)) = rps (pacer_of s)"
        using free Retry locked_block_Retry(2) [OF Retry] by (simp add: enter_lock_def)
      show "clock (enter_lock i r s) = clock s"
        using free Retry by (simp add: enter_lock_def)
      show "admissions (enter_lock i r s) = admissions s"
        using free Retry by (simp add: enter_lock_def)
    qed
  next
    case (NoHead p')
    show ?thesis
    proof (rule evict_keeps_inv [OF assms])
      show "starts (pacer_of (enter_lock i r s)) = evict (clock s) (starts (pacer_of s))"
        using free NoHead locked_block_NoHead(1) [OF NoHead] by (simp add: enter_lock_def)
      show "rps (pacer_of (enter_lock i r s)) = rps (pacer_of s)"
        using free NoHead locked_block_NoHead(2) [OF NoHead] by (simp add: enter_lock_def)
      show "clock (enter_lock i r s) = clock s"
        using free NoHead by (simp add: enter_lock_def)
      show "admissions (enter_lock i r s) = admissions s"
        using free NoHead by (simp add: enter_lock_def)
    qed
  qed
qed

lemma limiter_inv_wake:
  assumes "limiter_inv s"
  shows "limiter_inv (s\<lparr>lock_holder := None, callers := (callers s)(i := Done)\<rparr>)"
  using assms by (simp add: limiter_inv_def window_tail_def admitted_in_window_def)

lemma limiter_inv_pstep:
  assumes "limiter_inv s"
  shows "limiter_inv (pstep e s)"
proof (cases e)
  case (Elapse d)
  then show ?thesis using limiter_inv_elapse [OF assms] by simp
next
  case (Resume i r)
  show ?thesis
    unfolding Resume pstep.simps
    using assms limiter_inv_enter_lock [OF assms] limiter_inv_wake [OF assms]
    by (simp split: pc.splits)
qed

lemma limiter_inv_pexec: "limiter_inv s \<Longrightarrow> limiter_inv (pexec es s)"
  by (induction es arbitrary: s) (simp_all add: limiter_inv_pstep)

lemma rps_enter_lock: "rps (pacer_of (enter_lock i r s)) = rps (pacer_of s)"
  by (auto simp: enter_lock_def locked_block_def Let_def split: list.splits)

lemma rps_pstep: "rps (pacer_of (pstep e s)) = rps (pacer_of s)"
  by (cases e) (simp_all add: rps_enter_lock split: pc.splits)

lemma rps_pexec: "rps (pacer_of (pexec es s)) = rps (pacer_of s)"
  by (induction es arbitrary: s) (simp_all add: rps_pstep)

lemma lock_inv_init: "lock_inv (init_limiter r t0)"
  by (simp add: lock_inv_def init_limiter_def)

lemma lock_inv_enter_lock:
  assumes "lock_inv s" and "\<forall>w. callers s i \<noteq> SleepingJitter w"
  shows "lock_inv (enter_lock i r s)"
proof (cases "lock_holder s")
  case (Some h)
  then have "h \<noteq> i" using assms unfolding lock_inv_def by blast
  then show ?thesis
    using assms Some unfolding lock_inv_def enter_lock_def by auto
next
  case None
  then have nobody: "\<forall>k w. callers s k \<noteq> SleepingJitter w"
    using assms(1) unfolding lock_inv_def by (metis option.distinct(1))
  show ?thesis
  proof (cases "locked_block (clock s) r (pacer_of s)")
    case (Admit p' j)
    then show ?thesis
      using None nobody unfolding lock_inv_def enter_lock_def
      by (cases j) auto
  next
    case (Retry p' d)
    then show ?thesis
      using None nobody unfolding lock_inv_def enter_lock_def by auto
  next
    case (NoHead p')
    then show ?thesis
      using None nobody unfolding lock_inv_def enter_lock_def by auto
  qed
qed

lemma lock_inv_pstep:
  assumes "lock_inv s"
  shows "lock_inv (pstep e s)"
proof (cases e)
  case (Elapse d)
  then show ?thesis using assms by (simp add: lock_inv_def)
next
  case (Resume i r)
  show ?thesis
  proof (cases "callers s i")
    case (SleepingJitter w)
    then have h: "lock_holder s = Some i"
      using assms unfolding lock_inv_def by blast
    have others: "\<forall>k w'. k \<noteq> i \<longrightarrow> callers s k \<noteq> SleepingJitter w'"
      using assms h unfolding lock_inv_def by (metis option.inject)
    show ?thesis
    proof (cases "w \<le> clock s")
      case True
      then have "pstep e s = s\<lparr>lock_holder := None, callers := (callers s)(i := Done)\<rparr>"
        using Resume SleepingJitter by simp
      then show ?thesis using others unfolding lock_inv_def by auto
    next
      case False
      then show ?thesis using Resume SleepingJitter assms by simp
    qed
  next
    case Calling
    then show ?thesis using Resume lock_inv_enter_lock [OF assms, of i r] by simp
  next
    case WaitingLock
    then show ?thesis using Resume lock_inv_enter_lock [OF assms, of i r] by simp
  next
    case (SleepingBackoff w)
    then show ?thesis using Resume assms lock_inv_enter_lock [OF assms, of i r] by simp
  next
    case Done
    then show ?thesis using Resume assms by simp
  next
    case Crashed
    then show ?thesis using Resume assms by simp
  qed
qed

lemma lock_inv_pexec: "lock_inv s \<Longrightarrow> lock_inv (pexec es s)"
  by (induction es arbitrary: s) (simp_all add: lock_inv_pstep)

text \<open>While the lock is held, resuming any caller but the holder admits nobody.\<close>

lemma held_lock_blocks:
  assumes "lock_inv s" and "lock_holder s = Some i" and "k \<noteq> i"
  shows "admissions (pstep (Resume k r) s) = admissions s"
    and "pacer_of (pstep (Resume k r) s) = pacer_of s"
    and "callers (pstep (Resume k r) s) k \<noteq> Done \<or> callers s k = Done"
proof -
  have nj: "\<forall>w. callers s k \<noteq> SleepingJitter w"
    using assms unfolding lock_inv_def by (metis option.inject)
  have el: "enter_lock k r s = s\<lparr>callers := (callers s)(k := WaitingLock)\<rparr>"
    using assms(2) by (simp add: enter_lock_def)
  show "admissions (pstep (Resume k r) s) = admissions s"
    using nj el by (cases "callers s k") simp_all
  show "pacer_of (pstep (Resume k r) s) = pacer_of s"
    using nj el by (cases "callers s k") simp_all
  show "callers (pstep (Resume k r) s) k \<noteq> Done \<or> callers s k = Done"
    using nj el by (cases "callers s k") simp_all
qed

text \<open>
  A run on the simulated clock, capacity 2: three callers arrive at time 0, two are
  admitted and the third backs off for one second; after that second it is admitted with
  the stamp 1. The stamps 0 and 1 are exactly one second apart: the eviction test
  \<open>now - starts[0] >= 1.0\<close> counts the older one as outside the window of the newer one,
  which is why the windows are open at their lower end.
\<close>

lemma demo_backoff:
  "callers (pexec [Resume 0 0, Resume 1 0, Resume 2 0] (init_limiter 2 0)) 2 = SleepingBackoff 1"
  "admissions (pexec [Resume 0 0, Resume 1 0, Resume 2 0, Elapse 1, Resume 2 0]
     (init_limiter 2 0)) = [0, 0, 1]"
  "admitted_in_window 1 (pexec [Resume 0 0, Resume 1 0, Resume 2 0, Elapse 1, Resume 2 0]
     (init_limiter 2 0)) = 1"
  by (simp_all add: init_limiter_def FixedPacer_def enter_lock_def locked_block_def
      JITTER_MAX_S_def Let_def admitted_in_window_def trailing_window_def)

section \<open>Properties of the fetcher and of a stage\<close>

lemma truediv_guarded: "0 < b \<Longrightarrow> truediv a b = Inr (real_of_int a / real_of_int b)"
  by (simp add: truediv_def)

lemma deck_record_total: "\<exists>m. deck_record P u html = Inr m"
proof -
  obtain p w l t d where det: "extract_details P html = (p, w, l, t, d)"
    by (metis prod_cases5)
  show ?thesis
    by (cases "0 < w + l") (simp_all add: deck_record_def det Let_def truediv_guarded)
qed

text \<open>
  What \<open>check_deck\<close> raises on a fetched page is the \<open>ValueError\<close> of \<open>_extract_details\<close>;
  the other two tasks raise nothing there.
\<close>

lemma on_page_Inl:
  assumes "on_page P needle kind u html w = Inl e"
  shows "e = ValueError" and "kind = Check_deck"
    and "deck_has_card P html needle" and "details_raise P html"
proof -
  obtain m where m: "deck_record P u html = Inr m"
    using deck_record_total by blast
  show "e = ValueError" and "kind = Check_deck"
    and "deck_has_card P html needle" and "details_raise P html"
    using assms m by (cases kind; simp split: if_splits)+
qed


lemma get_finish_Inr:
  assumes "get_finish u resp w = (Inr html, w1)"
  shows "w1 = w" and "resp = Body html"
  using assms by (cases resp; simp add: announce_def split: if_splits)+

lemma get_finish_Inl:
  assumes "get_finish u resp w = (Inl e, w1)"
  shows "is_Exception e"
    and "stop_evt w1"
    and "stop_evt w \<Longrightarrow> w1 = w"
    and "\<not> stop_evt w \<Longrightarrow> \<exists>d. is_detail d
           \<and> w1 = w\<lparr>printed := printed w @ [''[fail-fast] error on '' @ u, d], stop_evt := True\<rparr>"
    and "resp \<noteq> Body html"
proof -
  show "is_Exception e" and "stop_evt w1" and "resp \<noteq> Body html"
    using assms
    by (cases resp; auto simp: announce_def is_Exception_def split: if_splits)+
  show "w1 = w" if "stop_evt w"
    using assms that by (cases resp; auto simp: announce_def)
  show "\<exists>d. is_detail d
      \<and> w1 = w\<lparr>printed := printed w @ [''[fail-fast] error on '' @ u, d], stop_evt := True\<rparr>"
    if "\<not> stop_evt w"
  proof (cases resp)
    case (Body html')
    then show ?thesis using assms by simp
  next
    case (HttpError status message)
    have "is_detail (''[fail-fast] HTTP '' @ str_int status @ '': '' @ message)"
      unfolding is_detail_def by blast
    then show ?thesis
      using assms that HttpError by (auto simp: announce_def)
  next
    case (TransportError nm tx)
    have "is_detail (''[fail-fast] '' @ nm @ '': '' @ tx)"
      unfolding is_detail_def by blast
    then show ?thesis
      using assms that TransportError by (auto simp: announce_def)
  qed
qed

lemma world_of_set_phase [simp]: "world_of (set_phase i ph s) = world_of s"
  by (simp add: set_phase_def)

lemma sem_set_phase [simp]: "sem (set_phase i ph s) = sem s"
  by (simp add: set_phase_def)

lemma length_tasks_set_phase [simp]: "length (tasks (set_phase i ph s)) = length (tasks s)"
  by (simp add: set_phase_def)

lemma map_fst_set_phase [simp]: "map fst (tasks (set_phase i ph s)) = map fst (tasks s)"
proof (cases "i < length (tasks s)")
  case True
  then have "(map fst (tasks s))[i := fst (tasks s ! i)] = map fst (tasks s)"
    by (metis list_update_id nth_map)
  then show ?thesis by (simp add: set_phase_def map_update)
next
  case False
  then have "(tasks s)[i := (fst (tasks s ! i), ph)] = tasks s"
    by (simp add: list_update_beyond)
  then show ?thesis by (simp add: set_phase_def)
qed

text \<open>The requests in flight have been issued, at every moment of a stage.\<close>

lemma requested_set_phase [simp]:
  "requested (world_of (set_phase i ph s)) = requested (world_of s)"
  by simp

lemma sent_set_phase:
  assumes "sent s" and "ph = InFlight \<longrightarrow> i < length (tasks s) \<longrightarrow> fst (tasks s ! i) \<in> set (requested (world_of s))"
  shows "sent (set_phase i ph s)"
proof -
  have "\<forall>t\<in>set ((tasks s)[i := (fst (tasks s ! i), ph)]).
          snd t = InFlight \<longrightarrow> fst t \<in> set (requested (world_of s))"
  proof
    fix t assume "t \<in> set ((tasks s)[i := (fst (tasks s ! i), ph)])"
    then have "t \<in> insert (fst (tasks s ! i), ph) (set (tasks s))"
      using set_update_subset_insert by fastforce
    moreover have "i < length (tasks s)" if "t \<notin> set (tasks s)"
    proof (rule ccontr)
      assume "\<not> i < length (tasks s)"
      then have "(tasks s)[i := (fst (tasks s ! i), ph)] = tasks s"
        by (simp add: list_update_beyond)
      then show False
        using that \<open>t \<in> set ((tasks s)[i := (fst (tasks s ! i), ph)])\<close> by simp
    qed
    ultimately show "snd t = InFlight \<longrightarrow> fst t \<in> set (requested (world_of s))"
      using assms by (auto simp: sent_def list_all_iff)
  qed
  then show ?thesis
    by (simp add: sent_def set_phase_def list_all_iff)
qed

lemma sent_sem [simp]: "sent (s\<lparr>sem := k\<rparr>) = sent s"
  by (simp add: sent_def)

lemma sent_world:
  assumes "sent s" and "set (requested (world_of s)) \<subseteq> set (requested w)"
  shows "sent (s\<lparr>world_of := w\<rparr>)"
  using assms by (auto simp: sent_def list_all_iff)

lemma sent_task_raises:
  assumes "sent s" and "set (requested (world_of s)) \<subseteq> set (requested w)"
  shows "sent (task_raises fo kind i e w s)"
proof -
  have f: "requested (on_exception fo kind w) = requested w"
    by (cases kind) (simp_all add: Let_def)
  have a: "sent (s\<lparr>world_of := on_exception fo kind w, sem := sem s + 1\<rparr>)"
    using sent_world [OF assms(1), of "on_exception fo kind w"] assms(2) by (simp add: f)
  have b: "sent (s\<lparr>world_of := w, sem := sem s + 1\<rparr>)"
    using sent_world [OF assms] by simp
  show ?thesis
    unfolding task_raises_def using a b by (simp add: sent_set_phase)
qed

lemma sent_enter_get:
  assumes "sent s"
  shows "sent (enter_get fo kind i s)"
proof (cases "stop_evt (world_of s)")
  case True
  have "sent (task_raises fo kind i CancelledError (world_of s) (s\<lparr>sem := sem s - 1\<rparr>))"
    by (rule sent_task_raises) (simp_all add: assms)
  then show ?thesis using True by (simp add: enter_get_def get_enter_def)
next
  case False
  have "sent (s\<lparr>world_of := (world_of s)\<lparr>acquired := acquired (world_of s) + 1\<rparr>, sem := sem s - 1\<rparr>)"
    using sent_world [OF assms, of "(world_of s)\<lparr>acquired := acquired (world_of s) + 1\<rparr>"]
    by simp
  then have "sent (set_phase i Acquiring (s\<lparr>world_of := (world_of s)\<lparr>acquired := acquired (world_of s) + 1\<rparr>, sem := sem s - 1\<rparr>))"
    by (simp add: sent_set_phase)
  then show ?thesis using False by (simp add: enter_get_def get_enter_def)
qed

lemma get_finish_requested:
  "requested (snd (get_finish u resp w)) = requested w"
  by (cases resp) (simp_all add: announce_def)

lemma on_page_requested:
  "on_page P needle kind u html w = Inr w2 \<Longrightarrow> requested w2 = requested w"
  by (cases kind; auto split: if_splits sum.splits)

lemma step_sent:
  assumes "sent s"
  shows "sent (step P needle fo kind e s)"
proof (cases e)
  case (Start i)
  then show ?thesis
    using assms sent_enter_get [OF assms] by (simp add: sent_set_phase)
next
  case (Grant i)
  then show ?thesis using assms sent_enter_get [OF assms] by simp
next
  case (Paced i)
  have "sent (s\<lparr>world_of := get_send (fst (tasks s ! i)) (world_of s)\<rparr>)"
    by (rule sent_world [OF assms]) (auto simp: get_send_def)
  then have "sent (set_phase i InFlight (s\<lparr>world_of := get_send (fst (tasks s ! i)) (world_of s)\<rparr>))"
    by (intro sent_set_phase) (simp_all add: get_send_def)
  then show ?thesis using Paced assms by simp
next
  case (Reply i resp)
  show ?thesis
  proof (cases "at_phase s i InFlight")
    case False
    then show ?thesis using Reply assms by simp
  next
    case True
    let ?u = "fst (tasks s ! i)"
    obtain r w1 where gf: "get_finish ?u resp (world_of s) = (r, w1)"
      by (cases "get_finish ?u resp (world_of s)")
    have r1: "requested w1 = requested (world_of s)"
      using get_finish_requested [of ?u resp "world_of s"] gf by simp
    show ?thesis
    proof (cases r)
      case (Inl e)
      have "sent (task_raises fo kind i e w1 s)"
        by (rule sent_task_raises [OF assms]) (simp add: r1)
      then show ?thesis using Reply True gf Inl by simp
    next
      case (Inr html)
      show ?thesis
      proof (cases "on_page P needle kind ?u html w1")
        case (Inl e)
        have "sent (task_raises fo kind i e w1 s)"
          by (rule sent_task_raises [OF assms]) (simp add: r1)
        then show ?thesis using Reply True gf Inr Inl by simp
      next
        case (Inr w2)
        have "requested w2 = requested (world_of s)"
          using on_page_requested [OF Inr] r1 by simp
        then have "sent (s\<lparr>world_of := w2, sem := sem s + 1\<rparr>)"
          using sent_world [OF assms, of w2] by simp
        then have "sent (set_phase i Finished (s\<lparr>world_of := w2, sem := sem s + 1\<rparr>))"
          by (simp add: sent_set_phase)
        then show ?thesis using Reply True gf \<open>r = Inr html\<close> Inr by simp
      qed
    qed
  qed
qed

lemma sent_init: "sent (init_stage cap urls w)"
  by (simp add: sent_def init_stage_def list_all_iff)

text \<open>
  An invariant of the shared state is kept by every event of a stage as soon as it is
  kept by the five things a task does to that state: counting a call of
  \<open>pacer.acquire()\<close> (with the signal unset), issuing a request, ending in the \<open>except\<close>
  clause after a failed request (for a URL that was requested), ending in the \<open>except\<close>
  clause after an error on the fetched page, and working on a fetched page.
\<close>

lemma world_of_enter_get:
  "world_of (enter_get fo kind i s) =
     (if stop_evt (world_of s) then world_of s
      else (world_of s)\<lparr>acquired := acquired (world_of s) + 1\<rparr>)"
  by (simp add: enter_get_def get_enter_def task_raises_def is_Exception_def)

lemma step_keeps:
  assumes q: "Q (world_of s)"
    and st: "sent s"
    and enter: "\<And>w. Q w \<Longrightarrow> \<not> stop_evt w \<Longrightarrow> Q (w\<lparr>acquired := acquired w + 1\<rparr>)"
    and send: "\<And>w u. Q w \<Longrightarrow> Q (get_send u w)"
    and fail: "\<And>w u resp e w1. Q w \<Longrightarrow> u \<in> set (requested w)
                 \<Longrightarrow> get_finish u resp w = (Inl e, w1) \<Longrightarrow> Q (on_exception fo kind w1)"
    and raise: "\<And>w u html e. Q w \<Longrightarrow> on_page P needle kind u html w = Inl e
                 \<Longrightarrow> Q (on_exception fo kind w)"
    and page: "\<And>w u html w2. Q w \<Longrightarrow> on_page P needle kind u html w = Inr w2 \<Longrightarrow> Q w2"
  shows "Q (world_of (step P needle fo kind e s))"
proof (cases e)
  case (Start i)
  have "Q (world_of (enter_get fo kind i s))"
    using q enter by (simp add: world_of_enter_get)
  then show ?thesis using Start q by simp
next
  case (Grant i)
  have "Q (world_of (enter_get fo kind i s))"
    using q enter by (simp add: world_of_enter_get)
  then show ?thesis using Grant q by simp
next
  case (Paced i)
  then show ?thesis using q send by simp
next
  case (Reply i resp)
  show ?thesis
  proof (cases "at_phase s i InFlight")
    case False
    then show ?thesis using Reply q by simp
  next
    case True
    let ?u = "fst (tasks s ! i)"
    have u: "?u \<in> set (requested (world_of s))"
      using True st by (auto simp: sent_def list_all_iff at_phase_def)
    obtain r w1 where gf: "get_finish ?u resp (world_of s) = (r, w1)"
      by (cases "get_finish ?u resp (world_of s)")
    show ?thesis
    proof (cases r)
      case (Inl e)
      have "is_Exception e" using get_finish_Inl(1) gf Inl by blast
      moreover have "Q (on_exception fo kind w1)"
        using fail [OF q u] gf Inl by blast
      ultimately show ?thesis
        using Reply True gf Inl by (simp add: task_raises_def)
    next
      case (Inr html)
      have w1: "w1 = world_of s" using get_finish_Inr(1) gf Inr by blast
      show ?thesis
      proof (cases "on_page P needle kind ?u html w1")
        case (Inl e)
        have "e = ValueError" using on_page_Inl(1) [OF Inl] .
        moreover have "Q (on_exception fo kind w1)"
          using raise [OF q] Inl w1 by blast
        ultimately show ?thesis
          using Reply True gf Inr Inl by (simp add: task_raises_def is_Exception_def)
      next
        case (Inr w2)
        have "Q w2" using page [OF q] Inr w1 by blast
        then show ?thesis
          using Reply True gf \<open>r = Inr html\<close> Inr by simp
      qed
    qed
  qed
qed

lemma run_events_sent:
  assumes "sent s"
  shows "sent (run_events P needle fo kind es s)"
  using assms by (induction es arbitrary: s) (simp_all add: step_sent)

lemma run_events_keeps:
  assumes q: "Q (world_of s)"
    and st: "sent s"
    and enter: "\<And>w. Q w \<Longrightarrow> \<not> stop_evt w \<Longrightarrow> Q (w\<lparr>acquired := acquired w + 1\<rparr>)"
    and send: "\<And>w u. Q w \<Longrightarrow> Q (get_send u w)"
    and fail: "\<And>w u resp e w1. Q w \<Longrightarrow> u \<in> set (requested w)
                 \<Longrightarrow> get_finish u resp w = (Inl e, w1) \<Longrightarrow> Q (on_exception fo kind w1)"
    and raise: "\<And>w u html e. Q w \<Longrightarrow> on_page P needle kind u html w = Inl e
                 \<Longrightarrow> Q (on_exception fo kind w)"
    and page: "\<And>w u html w2. Q w \<Longrightarrow> on_page P needle kind u html w = Inr w2 \<Longrightarrow> Q w2"
  shows "Q (world_of (run_events P needle fo kind es s))"
  using q st
proof (induction es arbitrary: s)
  case Nil
  then show ?case by simp
next
  case (Cons e es)
  have "Q (world_of (step P needle fo kind e s))"
    by (rule step_keeps [where Q = Q, OF Cons.prems enter send fail raise page])
  moreover have "sent (step P needle fo kind e s)"
    using Cons.prems(2) by (rule step_sent)
  ultimately show ?case using Cons by simp
qed

lemma gather_keeps:
  assumes q: "Q w"
    and enter: "\<And>w. Q w \<Longrightarrow> \<not> stop_evt w \<Longrightarrow> Q (w\<lparr>acquired := acquired w + 1\<rparr>)"
    and send: "\<And>w u. Q w \<Longrightarrow> Q (get_send u w)"
    and fail: "\<And>w u resp e w1. Q w \<Longrightarrow> u \<in> set (requested w)
                 \<Longrightarrow> get_finish u resp w = (Inl e, w1) \<Longrightarrow> Q (on_exception fo kind w1)"
    and raise: "\<And>w u html e. Q w \<Longrightarrow> on_page P needle kind u html w = Inl e
                 \<Longrightarrow> Q (on_exception fo kind w)"
    and page: "\<And>w u html w2. Q w \<Longrightarrow> on_page P needle kind u html w = Inr w2 \<Longrightarrow> Q w2"
  shows "Q (snd (gather P needle fo kind cap urls es w))"
proof -
  have "Q (world_of (init_stage cap urls w))"
    using q by (simp add: init_stage_def)
  then have "Q (world_of (run_events P needle fo kind es (init_stage cap urls w)))"
    by (rule run_events_keeps [where Q = Q, OF _ sent_init enter send fail raise page])
  then show ?thesis by (simp add: gather_def Let_def)
qed

text \<open>A stage raises nothing but the already-cancelled error.\<close>

lemma gather_Raised:
  "fst (gather P needle fo kind cap urls es w) = Raised e \<Longrightarrow> e = CancelledError"
  by (simp add: gather_def Let_def join_def split: if_splits)

section \<open>Invariants of the shared state\<close>

lemma on_exception_count [simp]:
  "error_count (on_exception fo kind w) = error_count w + 1"
  by (cases kind) (simp_all add: Let_def)

lemma on_exception_stop: "stop_evt w \<Longrightarrow> stop_evt (on_exception fo kind w)"
  by (cases kind) (simp_all add: Let_def)

lemma on_exception_frame [simp]:
  "printed (on_exception fo kind w) = printed w"
  "acquired (on_exception fo kind w) = acquired w"
  "requested (on_exception fo kind w) = requested w"
  "tourneys (on_exception fo kind w) = tourneys w"
  "deck_urls (on_exception fo kind w) = deck_urls w"
  "matches (on_exception fo kind w) = matches w"
  by (cases kind; simp add: Let_def)+

lemma on_page_frame:
  assumes "on_page P needle kind u html w = Inr w2"
  shows "stop_evt w2 = stop_evt w" and "error_count w2 = error_count w"
    and "printed w2 = printed w" and "acquired w2 = acquired w"
    and "requested w2 = requested w"
  using assms by (cases kind; auto split: if_splits sum.splits)+

lemma get_finish_frame:
  assumes "get_finish u resp w = (r, w1)"
  shows "error_count w1 = error_count w" and "acquired w1 = acquired w"
    and "requested w1 = requested w" and "tourneys w1 = tourneys w"
    and "deck_urls w1 = deck_urls w" and "matches w1 = matches w"
  using assms by (cases resp; auto simp: announce_def split: if_splits)+

text \<open>Once set, the signal stays set.\<close>

lemma gather_stop_mono:
  assumes "stop_evt w"
  shows "stop_evt (snd (gather P needle fo kind cap urls es w))"
proof (rule gather_keeps [where Q = stop_evt, OF assms])
  fix w u resp e w1
  assume "get_finish u resp w = (Inl e, w1)"
  then show "stop_evt (on_exception fo kind w1)"
    using get_finish_Inl(2) on_exception_stop by blast
next
  fix w u html w2
  assume "stop_evt w" and "on_page P needle kind u html w = Inr w2"
  then show "stop_evt w2" using on_page_frame(1) by blast
qed (simp_all add: get_send_def on_exception_stop)

text \<open>At most one announcement.\<close>

lemma announced_once_fail:
  assumes "announced_once w" and "u \<in> set (requested w)"
    and "get_finish u resp w = (Inl e, w1)"
  shows "announced_once (on_exception fo kind w1)"
proof (cases "stop_evt w")
  case True
  then have "w1 = w" using get_finish_Inl(3) [OF assms(3)] by simp
  then show ?thesis
    using assms(1) True by (auto simp: announced_once_def on_exception_stop)
next
  case False
  then have silent: "printed w = []"
    using assms(1) by (auto simp: announced_once_def)
  obtain d where d: "is_detail d"
    and w1: "w1 = w\<lparr>printed := printed w @ [''[fail-fast] error on '' @ u, d], stop_evt := True\<rparr>"
    using get_finish_Inl(4) [OF assms(3) False] by blast
  have "stop_evt (on_exception fo kind w1)"
    using w1 by (simp add: on_exception_stop)
  moreover have "printed (on_exception fo kind w1) = [''[fail-fast] error on '' @ u, d]"
    by (simp add: w1 silent)
  moreover have "u \<in> set (requested (on_exception fo kind w1))"
    using assms(2) by (simp add: w1)
  ultimately show ?thesis
    unfolding announced_once_def using d by blast
qed

lemma announced_once_raise:
  assumes "announced_once w"
  shows "announced_once (on_exception fo kind w)"
proof (cases "printed w = []")
  case True
  then show ?thesis by (simp add: announced_once_def)
next
  case False
  then have "stop_evt (on_exception fo kind w)"
    using assms by (auto simp: announced_once_def on_exception_stop)
  then show ?thesis
    using assms False by (auto simp: announced_once_def)
qed

lemma gather_announced_once:
  assumes "announced_once w"
  shows "announced_once (snd (gather P needle fo kind cap urls es w))"
proof (rule gather_keeps [where Q = announced_once, OF assms])
  fix w u resp e w1
  assume "announced_once w" and "u \<in> set (requested w)"
    and "get_finish u resp w = (Inl e, w1)"
  then show "announced_once (on_exception fo kind w1)"
    by (rule announced_once_fail)
next
  fix w u html e
  assume "announced_once w"
  then show "announced_once (on_exception fo kind w)"
    by (rule announced_once_raise)
next
  fix w u html w2
  assume "announced_once w" and "on_page P needle kind u html w = Inr w2"
  then show "announced_once w2"
    using on_page_frame(1,3,5) unfolding announced_once_def by metis
next
  fix w u
  assume "announced_once w"
  then show "announced_once (get_send u w)"
    by (auto simp: announced_once_def get_send_def)
qed (simp add: announced_once_def)




text \<open>Every record in the accumulator has the derived fields that \<open>check_deck\<close> computes.\<close>

lemma deck_record_fields:
  assumes "deck_record P u html = Inr m"
  shows "record_ok m"
    and "(points m, wins m, losses m, ties m, dropped m) = extract_details P html"
    and "url m = u"
proof -
  obtain p w l t d where det: "extract_details P html = (p, w, l, t, d)"
    by (metis prod_cases5)
  have m: "m = \<lparr>url = u, player = player_from_url P u, archetype = extract_archetype P html,
      points = p, wins = w, losses = l, ties = t, dropped = d,
      win_rate = (if 0 < w + l then real_of_int w / real_of_int (w + l) else 0),
      played = w + l + t\<rparr>"
    using assms
    by (cases "0 < w + l") (auto simp: deck_record_def det Let_def truediv_guarded)
  show "record_ok m" by (simp add: m record_ok_def)
  show "(points m, wins m, losses m, ties m, dropped m) = extract_details P html"
    by (simp add: m det)
  show "url m = u" by (simp add: m)
qed

lemma gather_records_ok:
  assumes "records_ok w"
  shows "records_ok (snd (gather P needle fo kind cap urls es w))"
proof (rule gather_keeps [where Q = records_ok, OF assms])
  fix w u html w2
  assume ok: "records_ok w" and op: "on_page P needle kind u html w = Inr w2"
  show "records_ok w2"
  proof (cases kind)
    case Check_deck
    show ?thesis
    proof (cases "deck_has_card P html needle")
      case True
      obtain m where m: "deck_record P u html = Inr m"
        using deck_record_total by blast
      then have "w2 = w\<lparr>matches := matches w @ [m]\<rparr>"
        using op Check_deck True by (simp split: if_splits)
      then show ?thesis
        using ok deck_record_fields(1) [OF m] by (simp add: records_ok_def)
    next
      case False
      then show ?thesis using op ok Check_deck by simp
    qed
  qed (use op ok in \<open>auto simp: records_ok_def\<close>)
next
  fix w u resp e w1
  assume "records_ok w" and "get_finish u resp w = (Inl e, w1)"
  then show "records_ok (on_exception fo kind w1)"
    using get_finish_frame(6) by (simp add: records_ok_def)
qed (simp_all add: records_ok_def get_send_def)

text \<open>The first two stages leave the later accumulators alone.\<close>

lemma gather_page_frame:
  assumes "matches w = [] \<and> deck_urls w = []"
  shows "matches (snd (gather P needle fo Fetch_page cap urls es w)) = []
     \<and> deck_urls (snd (gather P needle fo Fetch_page cap urls es w)) = []"
  by (rule gather_keeps [where Q = "\<lambda>w. matches w = [] \<and> deck_urls w = []", OF assms])
     (auto simp: get_send_def get_finish_frame)

lemma gather_tourney_frame:
  assumes "matches w = []"
  shows "matches (snd (gather P needle fo Fetch_tourney cap urls es w)) = []"
  by (rule gather_keeps [where Q = "\<lambda>w. matches w = []", OF assms])
     (auto simp: get_send_def get_finish_frame)

section \<open>Properties of the orchestrator\<close>

lemma get_Body:
  "get u (Body first) init_world =
     (Inr first, init_world\<lparr>acquired := 1, requested := [u]\<rparr>)"
  by (simp add: get_def get_enter_def get_send_def init_world_def)

lemma get_failure:
  assumes "failure_of resp = Some e"
  shows "\<exists>d. is_detail d
     \<and> get u resp init_world =
         (Inl e, init_world\<lparr>acquired := 1, requested := [u],
                             printed := [''[fail-fast] error on '' @ u, d], stop_evt := True\<rparr>)"
proof (cases resp)
  case (Body html)
  then show ?thesis using assms by simp
next
  case (HttpError status message)
  have "is_detail (''[fail-fast] HTTP '' @ str_int status @ '': '' @ message)"
    unfolding is_detail_def by blast
  then show ?thesis
    using assms HttpError
    by (auto simp: get_def get_enter_def get_send_def announce_def init_world_def)
next
  case (TransportError nm tx)
  have "is_detail (''[fail-fast] '' @ nm @ '': '' @ tx)"
    unfolding is_detail_def by blast
  then show ?thesis
    using assms TransportError
    by (auto simp: get_def get_enter_def get_send_def announce_def init_world_def)
qed

text \<open>
  An invariant of the shared state that every stage keeps is kept by the three stages
  in a row.
\<close>

lemma collecting_keeps:
  assumes "Q w2"
    and "\<And>kind cap urls es w. Q w \<Longrightarrow> Q (snd (gather P (needle_of P cname) (fail_on cfg) kind cap urls es w))"
  shows "Q (snd (collecting P cfg cname ut ud es3 w2))"
proof -
  let ?g = "gather P (needle_of P cname) (fail_on cfg) Check_deck (concurrency_decks cfg) ud es3 w2"
  have "Q (snd ?g)" using assms by blast
  moreover have "snd (collecting P cfg cname ut ud es3 w2) = snd ?g"
    by (cases ?g) (simp add: collecting_def split: joined.splits)
  ultimately show ?thesis by simp
qed

lemma expanding_keeps:
  assumes "Q w1"
    and "\<And>kind cap urls es w. Q w \<Longrightarrow> Q (snd (gather P (needle_of P cname) (fail_on cfg) kind cap urls es w))"
  shows "Q (snd (expanding P cfg cname ut es2 es3 w1))"
proof -
  let ?g = "gather P (needle_of P cname) (fail_on cfg) Fetch_tourney (concurrency_pages cfg) ut es2 w1"
  obtain j w2 where g: "?g = (j, w2)" by (cases ?g)
  have q2: "Q w2" using assms(2) [OF assms(1), of Fetch_tourney "concurrency_pages cfg" ut es2] g
    by simp
  have "Q (snd (collecting P cfg cname ut ud es3 w2))" for ud
    by (rule collecting_keeps [where Q = Q, OF q2 assms(2)])
  then show ?thesis
    using q2 g by (simp add: expanding_def Let_def split: joined.splits)
qed

lemma listing_keeps:
  assumes "Q w0"
    and "\<And>kind cap urls es w. Q w \<Longrightarrow> Q (snd (gather P (needle_of P cname) (fail_on cfg) kind cap urls es w))"
  shows "Q (snd (listing P cfg cname first es1 es2 es3 w0))"
proof (cases "max_page P first")
  case (Inl e)
  then show ?thesis using assms(1) by (simp add: listing_def)
next
  case (Inr maxp)
  let ?g = "gather P (needle_of P cname) (fail_on cfg) Fetch_page (concurrency_pages cfg)
              (page_urls maxp) es1 w0"
  obtain j w1 where g: "?g = (j, w1)" by (cases ?g)
  have q1: "Q w1"
    using assms(2) [OF assms(1), of Fetch_page "concurrency_pages cfg" "page_urls maxp" es1] g
    by simp
  have "Q (snd (expanding P cfg cname ut es2 es3 w1))" for ut
    by (rule expanding_keeps [where Q = Q, OF q1 assms(2)])
  then show ?thesis
    using q1 g Inr by (simp add: listing_def Let_def split: joined.splits)
qed

lemma run_announced_once: "announced_once (snd (run P cfg cname resp es1 es2 es3))"
proof (cases "failure_of resp")
  case (Some e)
  obtain d where d: "is_detail d"
    and g: "get LIST_URL resp init_world =
         (Inl e, init_world\<lparr>acquired := 1, requested := [LIST_URL],
                             printed := [''[fail-fast] error on '' @ LIST_URL, d], stop_evt := True\<rparr>)"
    using get_failure [OF Some] by blast
  have "announced_once (init_world\<lparr>acquired := 1, requested := [LIST_URL],
      printed := [''[fail-fast] error on '' @ LIST_URL, d], stop_evt := True\<rparr>)"
    unfolding announced_once_def using d by auto
  then show ?thesis
    by (simp add: run_def g)
next
  case None
  then obtain first where b: "resp = Body first"
    by (cases resp) simp_all
  have "announced_once (init_world\<lparr>acquired := 1, requested := [LIST_URL]\<rparr>)"
    by (simp add: announced_once_def init_world_def)
  then have "announced_once (snd (listing P cfg cname first es1 es2 es3
      (init_world\<lparr>acquired := 1, requested := [LIST_URL]\<rparr>)))"
    by (rule listing_keeps) (rule gather_announced_once)
  then show ?thesis
    by (simp add: run_def b get_Body)
qed


lemma run_records_ok: "records_ok (snd (run P cfg cname resp es1 es2 es3))"
proof (cases "failure_of resp")
  case (Some e)
  obtain d where g: "get LIST_URL resp init_world =
         (Inl e, init_world\<lparr>acquired := 1, requested := [LIST_URL],
                             printed := [''[fail-fast] error on '' @ LIST_URL, d], stop_evt := True\<rparr>)"
    using get_failure [OF Some] by blast
  have "records_ok (init_world\<lparr>acquired := 1, requested := [LIST_URL],
      printed := [''[fail-fast] error on '' @ LIST_URL, d], stop_evt := True\<rparr>)"
    by (simp add: records_ok_def init_world_def)
  then show ?thesis
    by (simp add: run_def g)
next
  case None
  then obtain first where b: "resp = Body first"
    by (cases resp) simp_all
  have "records_ok (init_world\<lparr>acquired := 1, requested := [LIST_URL]\<rparr>)"
    by (simp add: records_ok_def init_world_def)
  then have "records_ok (snd (listing P cfg cname first es1 es2 es3
      (init_world\<lparr>acquired := 1, requested := [LIST_URL]\<rparr>)))"
    by (rule listing_keeps) (rule gather_records_ok)
  then show ?thesis
    by (simp add: run_def b get_Body)
qed

lemma gather_deck_frame:
  "deck_urls (snd (gather P needle fo Check_deck cap urls es w)) = deck_urls w"
  by (rule gather_keeps [where Q = "\<lambda>w'. deck_urls w' = deck_urls w"])
     (auto simp: get_send_def get_finish_frame Let_def split: if_splits sum.splits)

lemma collecting_outcome:
  assumes "ud = dedupe_keep_order (deck_urls w2)"
    and "collecting P cfg cname ut ud es3 w2 = (out, w)"
  shows "out = Raises CancelledError \<or> out = Pending \<or> partial_results out w"
proof -
  let ?g = "gather P (needle_of P cname) (fail_on cfg) Check_deck (concurrency_decks cfg) ud es3 w2"
  obtain j w3 where g: "?g = (j, w3)" by (cases ?g)
  have fr: "deck_urls w3 = deck_urls w2"
    using gather_deck_frame [of P "needle_of P cname" "fail_on cfg" "concurrency_decks cfg" ud es3 w2] g
    by simp
  show ?thesis
  proof (cases j)
    case (Raised e)
    then have "e = CancelledError" using gather_Raised [of P _ _ _ _ _ _ w2 e] g
      by (metis fst_conv)
    then show ?thesis using assms(2) g Raised by (simp add: collecting_def)
  next
    case Waiting
    then show ?thesis using assms(2) g by (simp add: collecting_def)
  next
    case Joined
    then show ?thesis
      using assms g fr by (auto simp: collecting_def partial_results_def)
  qed
qed

lemma expanding_outcome:
  assumes "expanding P cfg cname ut es2 es3 w1 = (out, w)"
  shows "out = Raises CancelledError \<or> out = Pending \<or> partial_results out w"
proof -
  let ?g = "gather P (needle_of P cname) (fail_on cfg) Fetch_tourney (concurrency_pages cfg) ut es2 w1"
  obtain j w2 where g: "?g = (j, w2)" by (cases ?g)
  show ?thesis
  proof (cases j)
    case (Raised e)
    then have "e = CancelledError" using gather_Raised [of P _ _ _ _ _ _ w1 e] g
      by (metis fst_conv)
    then show ?thesis using assms g Raised by (simp add: expanding_def)
  next
    case Waiting
    then show ?thesis using assms g by (simp add: expanding_def)
  next
    case Joined
    show ?thesis
    proof (cases "stop_evt w2")
      case True
      then show ?thesis
        using assms g Joined by (auto simp: expanding_def Let_def partial_results_def)
    next
      case False
      then have "collecting P cfg cname ut (dedupe_keep_order (deck_urls w2)) es3 w2 = (out, w)"
        using assms g Joined by (simp add: expanding_def Let_def)
      then show ?thesis using collecting_outcome by blast
    qed
  qed
qed

lemma listing_outcome:
  assumes "matches w0 = [] \<and> deck_urls w0 = []"
    and "listing P cfg cname first es1 es2 es3 w0 = (out, w)"
  shows "out = Raises CancelledError \<or> out = Raises ValueError \<or> out = Pending
     \<or> partial_results out w"
proof (cases "max_page P first")
  case (Inl e)
  then have "e = ValueError"
    by (auto simp: max_page_def py_int_def split: option.splits if_splits)
  then show ?thesis using assms(2) Inl by (auto simp: listing_def)
next
  case (Inr maxp)
  let ?g = "gather P (needle_of P cname) (fail_on cfg) Fetch_page (concurrency_pages cfg)
              (page_urls maxp) es1 w0"
  obtain j w1 where g: "?g = (j, w1)" by (cases ?g)
  have fr: "matches w1 = [] \<and> deck_urls w1 = []"
    using gather_page_frame [OF assms(1), of P "needle_of P cname" "fail_on cfg"
        "concurrency_pages cfg" "page_urls maxp" es1] g
    by simp
  show ?thesis
  proof (cases j)
    case (Raised e)
    then have "e = CancelledError" using gather_Raised [of P _ _ _ _ _ _ w0 e] g
      by (metis fst_conv)
    then show ?thesis using assms(2) g Raised Inr by (simp add: listing_def Let_def)
  next
    case Waiting
    then show ?thesis using assms(2) g Inr by (simp add: listing_def Let_def)
  next
    case Joined
    show ?thesis
    proof (cases "stop_evt w1")
      case True
      then have "out = Returns 0 0 [] \<and> w = w1"
        using assms(2) g Joined fr Inr by (auto simp: listing_def Let_def)
      then show ?thesis
        using fr by (simp add: partial_results_def dedupe_Nil)
    next
      case False
      then have "expanding P cfg cname (dedupe_keep_order (tourneys w1)) es2 es3 w1 = (out, w)"
        using assms(2) g Joined Inr by (simp add: listing_def Let_def)
      then show ?thesis using expanding_outcome by blast
    qed
  qed
qed

text \<open>
  When the tasks of the Listing stage have all ended in their own \<open>return\<close> or handler and
  the signal is set, \<open>run\<close> returns \<open>(0, 0, [])\<close> and no later stage runs.
\<close>

lemma listing_joined_abort:
  assumes "max_page P first = Inr maxp"
    and "gather P (needle_of P cname) (fail_on cfg) Fetch_page (concurrency_pages cfg)
           (page_urls maxp) es1 (init_world\<lparr>acquired := 1, requested := [LIST_URL]\<rparr>)
         = (Joined, w1)"
    and "stop_evt w1"
  shows "run P cfg cname (Body first) es1 es2 es3 = (Returns 0 0 [], w1)"
proof -
  let ?w0 = "init_world\<lparr>acquired := 1, requested := [LIST_URL]\<rparr>"
  have "matches ?w0 = [] \<and> deck_urls ?w0 = []"
    by (simp add: init_world_def)
  then have "matches w1 = [] \<and> deck_urls w1 = []"
    using gather_page_frame [of ?w0 P "needle_of P cname" "fail_on cfg" "concurrency_pages cfg"
        "page_urls maxp" es1] assms(2)
    by simp
  then show ?thesis
    using assms by (simp add: run_def get_Body listing_def Let_def)
qed

text \<open>Evaluation of the examples.\<close>

lemma demo_fields:
  "extract_standings demo_parsers html =
     (if html = asc ''L'' then [''t1'']
      else if html = asc ''M''
      then [''t01'', ''t02'', ''t03'', ''t04'', ''t05'', ''t06'', ''t07'', ''t08'',
            ''t09'', ''t10'', ''t11'', ''t12'', ''t13'']
      else [])"
  "extract_decks demo_parsers html = (if html = asc ''T'' then [''d1'', ''d2''] else [])"
  "deck_has_card demo_parsers html needle = (take (length needle) html = asc needle)"
  "details_raise demo_parsers html = (4300 < length html)"
  "extract_details demo_parsers html = (6, 2, 1, 1, False)"
  "extract_archetype demo_parsers html = ''Other''"
  "player_from_url demo_parsers u = ''Ash''"
  by (simp_all add: demo_parsers_def)

lemmas pipeline_eval =
  run_def listing_def expanding_def collecting_def gather_def init_stage_def join_def escaped_def
  get_def get_enter_def get_send_def announce_def is_Exception_def
  enter_get_def task_raises_def set_phase_def at_phase_def
  deck_record_def truediv_def init_world_def Let_def
  source_config_def FAIL_ON_def CONCURRENCY_PAGES_def CONCURRENCY_DECKS_def
  demo_fields dedupe_keep_order_def

lemma asc_eq [simp]: "(asc a = asc b) = (a = b)"
proof -
  have "inj (of_char :: char \<Rightarrow> nat)"
    by (rule injI) simp
  then show ?thesis
    by (simp add: asc_def inj_map_eq_map)
qed

lemma length_asc [simp]: "length (asc s) = length s"
  by (simp add: asc_def)

lemma take_asc [simp]: "take n (asc s) = asc (take n s)"
  by (simp add: asc_def take_map)

lemma max_page_L: "max_page demo_parsers (asc ''L'') = Inr 1"
  by code_simp

lemma max_page_M: "max_page demo_parsers (asc ''M'') = Inr 1"
  by code_simp

lemma page_urls_1: "page_urls 1 = [LIST_URL]"
  by (simp add: page_urls_def)

lemma page_urls_2: "page_urls 2 = [LIST_URL, LIST_URL @ ''&page=2'']"
  by code_simp

lemma needle_of_Pikachu: "needle_of demo_parsers '' Pikachu '' = ''pikachu''"
  by code_simp

lemma needle_of_Pikachu': "needle_of demo_parsers ''Pikachu'' = ''pikachu''"
  by code_simp

text \<open>
  A run that is aborted in its last stage: the listing page and the tournament page are
  fetched, two decks are found, the page of deck \<open>d2\<close> holds the card, and the request
  for deck \<open>d1\<close> times out afterwards.
\<close>

lemma demo_late_abort:
  "run demo_parsers source_config '' Pikachu '' (Body (asc ''L''))
     [Start 0, Paced 0, Reply 0 (Body (asc ''L''))]
     [Start 0, Paced 0, Reply 0 (Body (asc ''T''))]
     [Start 0, Start 1, Paced 0, Paced 1, Reply 1 (Body (asc ''pikachu'')),
      Reply 0 (TransportError ''TimeoutError'' [])]
   = (Returns 1 2
        [\<lparr>url = ''d2'', player = ''Ash'', archetype = ''Other'', points = 6,
          wins = 2, losses = 1, ties = 1, dropped = False, win_rate = 2 / 3,
          played = 4\<rparr>],
      \<lparr>stop_evt = True, error_count = 1,
        printed = [''[fail-fast] error on d1'', ''[fail-fast] TimeoutError: ''],
        acquired = 5,
        requested = [LIST_URL, LIST_URL, ''t1'', ''d1'', ''d2''],
        tourneys = [''t1''], deck_urls = [''d1'', ''d2''],
        matches =
          [\<lparr>url = ''d2'', player = ''Ash'', archetype = ''Other'', points = 6,
            wins = 2, losses = 1, ties = 1, dropped = False, win_rate = 2 / 3,
            played = 4\<rparr>]\<rparr>)"
  by (simp add: pipeline_eval max_page_L page_urls_1 needle_of_Pikachu)

text \<open>
  With one permit, the second listing page waits for the semaphore while the first one
  fails; when it is granted the semaphore the signal is set, \<open>_get\<close> raises
  \<open>CancelledError\<close>, and the error leaves \<open>run\<close>.
\<close>

lemma max_page_2:
  "max_page demo_parsers (asc ''<ul class=\"pagination\" data-max=\"2\">'') = Inr 2"
  by code_simp

lemma demo_late_grant:
  "fst (run demo_parsers (source_config\<lparr>concurrency_pages := 1\<rparr>) ''Pikachu''
          (Body (asc ''<ul class=\"pagination\" data-max=\"2\">''))
          [Start 0, Start 1, Paced 0, Reply 0 (HttpError 503 ''Service Unavailable''), Grant 1]
          [] [])
   = Raises CancelledError"
  by (simp add: pipeline_eval max_page_2 page_urls_2)



text \<open>A run whose only listing page answers with status 500.\<close>

lemma demo_listing_abort:
  "gather demo_parsers (needle_of demo_parsers '' Pikachu '') (fail_on source_config) Fetch_page
     (concurrency_pages source_config) (page_urls 1)
     [Start 0, Paced 0, Reply 0 (HttpError 500 ''Internal Server Error'')]
     (init_world\<lparr>acquired := 1, requested := [LIST_URL]\<rparr>)
   = (Joined,
      \<lparr>stop_evt = True, error_count = 1,
        printed = [''[fail-fast] error on '' @ LIST_URL,
                   ''[fail-fast] HTTP 500: Internal Server Error''],
        acquired = 2, requested = [LIST_URL, LIST_URL],
        tourneys = [], deck_urls = [], matches = []\<rparr>)"
proof -
  have "str_int 500 = ''500''" by code_simp
  then show ?thesis
    by (simp add: pipeline_eval max_page_L page_urls_1 needle_of_Pikachu)
qed



text \<open>The listing page that announces thirteen pages, and their URLs.\<close>

lemma max_page_13:
  "max_page demo_parsers (asc ''<ul class=\"pagination\" data-max=\"13\">'') = Inr 13"
  by code_simp

lemma page_urls_13:
  "page_urls 13 =
     [LIST_URL, LIST_URL @ ''&page=2'', LIST_URL @ ''&page=3'', LIST_URL @ ''&page=4'',
      LIST_URL @ ''&page=5'', LIST_URL @ ''&page=6'', LIST_URL @ ''&page=7'',
      LIST_URL @ ''&page=8'', LIST_URL @ ''&page=9'', LIST_URL @ ''&page=10'',
      LIST_URL @ ''&page=11'', LIST_URL @ ''&page=12'', LIST_URL @ ''&page=13'']"
  by code_simp

lemma str_int_503: "str_int 503 = ''503''"
  by code_simp


section \<open>Properties of the listing pages\<close>

text \<open>
  The pattern on a page that has the tag: the text up to the tag has no \<open><\<close>, the tag
  holds \<open>class="pagination"\<close> and later \<open>data-max="..."\<close> as its last attribute, and
  there is no \<open>>\<close> before the end of the tag. The two stars are greedy, so the proof
  follows them back from the end of the tag.
\<close>

lemma asc_Nil [simp]: "asc [] = []"
  by (simp add: asc_def)






















































section \<open>Every stage can be joined\<close>

text \<open>
  Under the schedule \<open>sequential\<close> the tasks of a stage run one after the other, and the
  stage is joined at its end.
\<close>

lemma done_upto_busy: "k < length urls \<Longrightarrow> done_upto k urls = busy_at k NotStarted urls"
  by (simp add: done_upto_def busy_at_def Cons_nth_drop_Suc [symmetric])

lemma busy_done: "k < length urls \<Longrightarrow> busy_at k Finished urls = done_upto (Suc k) urls"
  by (simp add: done_upto_def busy_at_def take_Suc_conv_app_nth)

lemma busy_at_nth:
  assumes "k < length urls"
  shows "busy_at k ph urls ! k = (urls ! k, ph)" and "k < length (busy_at k ph urls)"
  using assms by (simp_all add: busy_at_def nth_append)

lemma busy_at_update:
  assumes "k < length urls"
  shows "(busy_at k ph urls)[k := (urls ! k, ph')] = busy_at k ph' urls"
  using assms by (simp add: busy_at_def list_update_append)

lemma busy_at_not_escaped:
  "ph \<noteq> Cancelled \<Longrightarrow> Cancelled \<notin> snd ` set (busy_at k ph urls)"
  by (auto simp: busy_at_def)

lemma set_phase_busy:
  assumes "tasks s = busy_at k ph urls" and "k < length urls"
  shows "tasks (set_phase k ph' s) = busy_at k ph' urls"
  using assms by (simp add: set_phase_def busy_at_nth busy_at_update)

lemma at_phase_busy:
  assumes "tasks s = busy_at k ph urls" and "k < length urls"
  shows "at_phase s k ph' = (ph' = ph)"
  using assms by (auto simp: at_phase_def busy_at_nth)

lemma escaped_busy:
  assumes "tasks s = busy_at k ph urls"
  shows "escaped s = (ph = Cancelled)"
  using assms by (auto simp: escaped_def busy_at_def)

lemma escaped_stops: "escaped s \<Longrightarrow> run_events P needle fo kind es s = s"
  by (cases es) simp_all

lemma run_events_append:
  "run_events P needle fo kind (es @ es') s
     = run_events P needle fo kind es' (run_events P needle fo kind es s)"
proof (induction es arbitrary: s)
  case Nil
  show ?case by simp
next
  case (Cons e es)
  show ?case
  proof (cases "escaped s")
    case True
    then show ?thesis by (simp add: escaped_stops)
  next
    case False
    then show ?thesis using Cons by simp
  qed
qed

text \<open>One task from its start to its end, with nothing else in between.\<close>

lemma one_task_runs:
  assumes t: "tasks s = done_upto k urls" and c: "sem s = cap" and pos: "0 < cap"
    and k: "k < length urls"
  shows "tasks (run_events P needle fo kind [Start k, Paced k, Reply k r] s)
           = done_upto (Suc k) urls
     \<and> sem (run_events P needle fo kind [Start k, Paced k, Reply k r] s) = cap"
proof -
  have t0: "tasks s = busy_at k NotStarted urls"
    using t k by (simp add: done_upto_busy)
  have ne0: "\<not> escaped s" using escaped_busy [OF t0] by simp
  show ?thesis
  proof (cases "stop_evt (world_of s)")
    case True
    let ?s1 = "set_phase k Finished s"
    have s1: "step P needle fo kind (Start k) s = ?s1"
      using True at_phase_busy [OF t0 k] by simp
    have t1: "tasks ?s1 = busy_at k Finished urls"
      by (rule set_phase_busy [OF t0 k])
    have ne1: "\<not> escaped ?s1" using escaped_busy [OF t1] by simp
    have s2: "step P needle fo kind (Paced k) ?s1 = ?s1"
      using at_phase_busy [OF t1 k] by simp
    have s3: "step P needle fo kind (Reply k r) ?s1 = ?s1"
      using at_phase_busy [OF t1 k] by simp
    have r: "run_events P needle fo kind [Start k, Paced k, Reply k r] s = ?s1"
      by (simp only: run_events.simps ne0 ne1 s1 s2 s3 if_False)
    show ?thesis
      unfolding r using t1 c k by (simp add: busy_done)
  next
    case False
    let ?w1 = "(world_of s)\<lparr>acquired := acquired (world_of s) + 1\<rparr>"
    let ?s1 = "set_phase k Acquiring (s\<lparr>world_of := ?w1, sem := sem s - 1\<rparr>)"
    have s1: "step P needle fo kind (Start k) s = ?s1"
      using False c pos at_phase_busy [OF t0 k] by (simp add: enter_get_def get_enter_def)
    have t1: "tasks ?s1 = busy_at k Acquiring urls"
      by (rule set_phase_busy [OF _ k]) (simp add: t0)
    have ne1: "\<not> escaped ?s1" using escaped_busy [OF t1] by simp
    let ?s2 = "set_phase k InFlight (?s1\<lparr>world_of := get_send (fst (tasks ?s1 ! k)) (world_of ?s1)\<rparr>)"
    have s2: "step P needle fo kind (Paced k) ?s1 = ?s2"
      using at_phase_busy [OF t1 k] by simp
    have "tasks (?s1\<lparr>world_of := get_send (fst (tasks ?s1 ! k)) (world_of ?s1)\<rparr>)
        = busy_at k Acquiring urls"
      using t1 by simp
    then have t2: "tasks ?s2 = busy_at k InFlight urls"
      using k by (rule set_phase_busy)
    have ne2: "\<not> escaped ?s2" using escaped_busy [OF t2] by simp
    have sem2: "sem ?s2 = cap - 1" using c by simp
    let ?s3 = "step P needle fo kind (Reply k r) ?s2"
    have fl: "at_phase ?s2 k InFlight" using at_phase_busy [OF t2 k] by simp
    obtain x w1 where gf: "get_finish (fst (tasks ?s2 ! k)) r (world_of ?s2) = (x, w1)"
      by (cases "get_finish (fst (tasks ?s2 ! k)) r (world_of ?s2)")
    have "tasks ?s3 = busy_at k Finished urls \<and> sem ?s3 = cap"
    proof (cases x)
      case (Inl e)
      then have ex: "is_Exception e" using get_finish_Inl(1) gf by blast
      let ?m = "?s2\<lparr>world_of := on_exception fo kind w1, sem := sem ?s2 + 1\<rparr>"
      have "?s3 = set_phase k Finished ?m"
        unfolding step.simps using fl gf Inl ex by (simp add: task_raises_def)
      moreover have "tasks ?m = busy_at k InFlight urls"
        using t2 by simp
      then have "tasks (set_phase k Finished ?m) = busy_at k Finished urls"
        using k by (rule set_phase_busy)
      moreover have "sem (set_phase k Finished ?m) = cap"
        using sem2 pos by simp
      ultimately show ?thesis by simp
    next
      case (Inr html)
      show ?thesis
      proof (cases "on_page P needle kind (fst (tasks ?s2 ! k)) html w1")
        case (Inl e)
        have "e = ValueError"
          using on_page_Inl(1) [OF Inl] .
        then have ex: "is_Exception e"
          by (simp add: is_Exception_def)
        let ?m = "?s2\<lparr>world_of := on_exception fo kind w1, sem := sem ?s2 + 1\<rparr>"
        have "?s3 = set_phase k Finished ?m"
          unfolding step.simps using fl gf \<open>x = Inr html\<close> Inl ex by (simp add: task_raises_def)
        moreover have "tasks ?m = busy_at k InFlight urls"
          using t2 by simp
        then have "tasks (set_phase k Finished ?m) = busy_at k Finished urls"
          using k by (rule set_phase_busy)
        moreover have "sem (set_phase k Finished ?m) = cap"
          using sem2 pos by simp
        ultimately show ?thesis by simp
      next
        case (Inr w2)
        let ?m = "?s2\<lparr>world_of := w2, sem := sem ?s2 + 1\<rparr>"
        have "?s3 = set_phase k Finished ?m"
          unfolding step.simps using fl gf \<open>x = Inr html\<close> Inr by simp
        moreover have "tasks ?m = busy_at k InFlight urls"
          using t2 by simp
        then have "tasks (set_phase k Finished ?m) = busy_at k Finished urls"
          using k by (rule set_phase_busy)
        moreover have "sem (set_phase k Finished ?m) = cap"
          using sem2 pos by simp
        ultimately show ?thesis by simp
      qed
    qed
    moreover have "run_events P needle fo kind [Start k, Paced k, Reply k r] s = ?s3"
      by (simp only: run_events.simps ne0 ne1 ne2 s1 s2 if_False)
    ultimately show ?thesis
      using k by (simp only: busy_done)
  qed
qed

lemma sequential_upto:
  assumes pos: "0 < cap" and j: "j \<le> length urls"
  shows "tasks (run_events P needle fo kind
             (concat (map (\<lambda>i. [Start i, Paced i, Reply i (net (urls ! i))]) [0..<j]))
             (init_stage cap urls w)) = done_upto j urls
     \<and> sem (run_events P needle fo kind
             (concat (map (\<lambda>i. [Start i, Paced i, Reply i (net (urls ! i))]) [0..<j]))
             (init_stage cap urls w)) = cap"
  using j
proof (induction j)
  case 0
  show ?case by (simp add: init_stage_def done_upto_def)
next
  case (Suc j)
  let ?es = "concat (map (\<lambda>i. [Start i, Paced i, Reply i (net (urls ! i))]) [0..<j])"
  let ?s = "run_events P needle fo kind ?es (init_stage cap urls w)"
  have ih: "tasks ?s = done_upto j urls" "sem ?s = cap"
    using Suc by simp_all
  have "j < length urls" using Suc.prems by simp
  then have "tasks (run_events P needle fo kind [Start j, Paced j, Reply j (net (urls ! j))] ?s)
           = done_upto (Suc j) urls
     \<and> sem (run_events P needle fo kind [Start j, Paced j, Reply j (net (urls ! j))] ?s) = cap"
    by (rule one_task_runs [OF ih pos])
  then show ?case
    by (simp add: run_events_append del: run_events.simps)
qed

lemma sequential_joins:
  assumes "0 < cap"
  shows "fst (gather P needle fo kind cap urls (sequential net urls) w) = Joined"
proof -
  let ?s = "run_events P needle fo kind (sequential net urls) (init_stage cap urls w)"
  have "tasks ?s = done_upto (length urls) urls"
    using sequential_upto [OF assms order_refl, where urls = urls and net = net]
    by (simp add: sequential_def)
  then have t: "tasks ?s = map (\<lambda>u. (u, Finished)) urls"
    by (simp add: done_upto_def)
  then have "join ?s = Joined"
    by (auto simp: join_def escaped_def)
  then show ?thesis by (simp add: gather_def Let_def)
qed

text \<open>
  Hence \<open>run\<close> can return whenever its first page is fetched, \<open>_max_page\<close> reads a page
  count from it and the caps are positive.
\<close>

lemma run_can_return:
  assumes "0 < concurrency_pages cfg" and "0 < concurrency_decks cfg"
    and "max_page P first = Inr maxp"
  shows "\<exists>es1 es2 es3 a b ms.
           fst (run P cfg cname (Body first) es1 es2 es3) = Returns a b ms"
proof -
  let ?nd = "needle_of P cname"
  let ?w0 = "init_world\<lparr>acquired := 1, requested := [LIST_URL]\<rparr>"
  let ?pages = "page_urls maxp"
  let ?es1 = "sequential net ?pages"
  obtain j1 w1 where g1: "gather P ?nd (fail_on cfg) Fetch_page (concurrency_pages cfg) ?pages ?es1 ?w0 = (j1, w1)"
    by (cases "gather P ?nd (fail_on cfg) Fetch_page (concurrency_pages cfg) ?pages ?es1 ?w0")
  have j1: "j1 = Joined"
    using sequential_joins [OF assms(1), where urls = ?pages and net = net and w = ?w0] g1
    by (metis fst_conv)
  let ?ut = "dedupe_keep_order (tourneys w1)"
  let ?es2 = "sequential net ?ut"
  obtain j2 w2 where g2: "gather P ?nd (fail_on cfg) Fetch_tourney (concurrency_pages cfg) ?ut ?es2 w1 = (j2, w2)"
    by (cases "gather P ?nd (fail_on cfg) Fetch_tourney (concurrency_pages cfg) ?ut ?es2 w1")
  have j2: "j2 = Joined"
    using sequential_joins [OF assms(1), where urls = ?ut and net = net and w = w1] g2
    by (metis fst_conv)
  let ?ud = "dedupe_keep_order (deck_urls w2)"
  let ?es3 = "sequential net ?ud"
  obtain j3 w3 where g3: "gather P ?nd (fail_on cfg) Check_deck (concurrency_decks cfg) ?ud ?es3 w2 = (j3, w3)"
    by (cases "gather P ?nd (fail_on cfg) Check_deck (concurrency_decks cfg) ?ud ?es3 w2")
  have j3: "j3 = Joined"
    using sequential_joins [OF assms(2), where urls = ?ud and net = net and w = w2] g3
    by (metis fst_conv)
  have "\<exists>a b ms. fst (run P cfg cname (Body first) ?es1 ?es2 ?es3) = Returns a b ms"
    using g1 j1 g2 j2 g3 j3 assms(3)
    by (simp add: run_def get_Body listing_def expanding_def collecting_def Let_def)
  then show ?thesis by blast
qed
section \<open>A stage within its cap never raises\<close>

lemma filter_update_length:
  "i < length xs \<Longrightarrow>
     length (filter Q (xs[i := y])) + (if Q (xs ! i) then 1 else 0)
       = length (filter Q xs) + (if Q y then 1 else 0)"
proof (induction xs arbitrary: i)
  case Nil
  then show ?case by simp
next
  case (Cons x xs)
  then show ?case by (cases i) auto
qed

lemma permits_held_set_phase:
  assumes "i < length (tasks s)"
  shows "permits_held (set_phase i ph s) + (if holds_permit (snd (tasks s ! i)) then 1 else 0)
           = permits_held s + (if holds_permit ph then 1 else 0)"
  using filter_update_length [OF assms, of "\<lambda>t. holds_permit (snd t)" "(fst (tasks s ! i), ph)"]
  by (simp add: permits_held_def set_phase_def)

lemma permits_held_frame [simp]:
  "permits_held (s\<lparr>world_of := w\<rparr>) = permits_held s"
  "permits_held (s\<lparr>sem := n\<rparr>) = permits_held s"
  by (simp_all add: permits_held_def)

lemma tasks_frame [simp]:
  "tasks (s\<lparr>world_of := w, sem := n\<rparr>) = tasks s"
  by simp

lemma list_all_set_phase:
  assumes "list_all R (tasks s)" and "R (fst (tasks s ! i), ph)"
  shows "list_all R (tasks (set_phase i ph s))"
  using assms set_update_subset_insert [of "tasks s" i "(fst (tasks s ! i), ph)"]
  by (auto simp: set_phase_def list_all_iff)

lemma permits_below_length:
  assumes "i < length (tasks s)" and "\<not> holds_permit (snd (tasks s ! i))"
  shows "permits_held s < length (tasks s)"
  unfolding permits_held_def
  by (rule length_filter_less [of "tasks s ! i"]) (use assms in auto)

text \<open>The four moves of a task, each on a stage within its cap.\<close>

lemma unqueued_move:
  assumes u: "unqueued cap s" and i: "i < length (tasks s)"
    and ph: "ph \<noteq> WaitSem" "ph \<noteq> Cancelled"
    and bal: "n + (if holds_permit ph then 1 else 0)
                = sem s + (if holds_permit (snd (tasks s ! i)) then 1 else 0)"
  shows "unqueued cap (set_phase i ph (s\<lparr>world_of := w, sem := n\<rparr>))"
proof -
  let ?m = "s\<lparr>world_of := w, sem := n\<rparr>"
  have "permits_held (set_phase i ph ?m) + (if holds_permit (snd (tasks s ! i)) then 1 else 0)
      = permits_held s + (if holds_permit ph then 1 else 0)"
    using permits_held_set_phase [of i ?m ph] i by simp
  then have "n + permits_held (set_phase i ph ?m) = sem s + permits_held s"
    using bal by (simp split: if_splits)
  moreover have "list_all (\<lambda>t. snd t \<noteq> WaitSem \<and> snd t \<noteq> Cancelled) (tasks (set_phase i ph ?m))"
    by (rule list_all_set_phase) (use u ph in \<open>simp_all add: unqueued_def\<close>)
  ultimately show ?thesis
    using u by (simp add: unqueued_def)
qed

lemma unqueued_step:
  assumes u: "unqueued cap s"
  shows "unqueued cap (step P needle fo kind e s)"
proof (cases e)
  case (Start i)
  show ?thesis
  proof (cases "at_phase s i NotStarted")
    case False
    then show ?thesis using Start u by simp
  next
    case True
    then have i: "i < length (tasks s)" and ns: "snd (tasks s ! i) = NotStarted"
      by (simp_all add: at_phase_def)
    have "permits_held s < length (tasks s)"
      by (rule permits_below_length [OF i]) (simp add: ns holds_permit_def)
    then have room: "0 < sem s"
      using u by (simp add: unqueued_def)
    show ?thesis
    proof (cases "stop_evt (world_of s)")
      case stop: True
      have "unqueued cap (set_phase i Finished (s\<lparr>world_of := world_of s, sem := sem s\<rparr>))"
        by (rule unqueued_move [OF u i]) (simp_all add: ns holds_permit_def)
      then show ?thesis using Start True stop by simp
    next
      case go: False
      have "unqueued cap (set_phase i Acquiring
          (s\<lparr>world_of := (world_of s)\<lparr>acquired := acquired (world_of s) + 1\<rparr>, sem := sem s - 1\<rparr>))"
        by (rule unqueued_move [OF u i]) (use room in \<open>simp_all add: ns holds_permit_def\<close>)
      then show ?thesis
        using Start True go room by (simp add: enter_get_def get_enter_def)
    qed
  qed
next
  case (Grant i)
  have "\<not> at_phase s i WaitSem"
    using u by (auto simp: unqueued_def at_phase_def list_all_iff)
  then show ?thesis using Grant u by simp
next
  case (Paced i)
  show ?thesis
  proof (cases "at_phase s i Acquiring")
    case False
    then show ?thesis using Paced u by simp
  next
    case True
    then have i: "i < length (tasks s)" and ac: "snd (tasks s ! i) = Acquiring"
      by (simp_all add: at_phase_def)
    have "unqueued cap (set_phase i InFlight
        (s\<lparr>world_of := get_send (fst (tasks s ! i)) (world_of s), sem := sem s\<rparr>))"
      by (rule unqueued_move [OF u i]) (simp_all add: ac holds_permit_def)
    then show ?thesis using Paced True by simp
  qed
next
  case (Reply i r)
  show ?thesis
  proof (cases "at_phase s i InFlight")
    case False
    then show ?thesis using Reply u by simp
  next
    case True
    then have i: "i < length (tasks s)" and fl: "snd (tasks s ! i) = InFlight"
      by (simp_all add: at_phase_def)
    have fin: "unqueued cap (set_phase i Finished (s\<lparr>world_of := w, sem := sem s + 1\<rparr>))" for w
      by (rule unqueued_move [OF u i]) (simp_all add: fl holds_permit_def)
    obtain x w1 where gf: "get_finish (fst (tasks s ! i)) r (world_of s) = (x, w1)"
      by (cases "get_finish (fst (tasks s ! i)) r (world_of s)")
    show ?thesis
    proof (cases x)
      case (Inl e')
      then have "is_Exception e'" using get_finish_Inl(1) gf by blast
      then show ?thesis
        unfolding Reply step.simps using True gf Inl fin by (simp add: task_raises_def)
    next
      case (Inr html)
      show ?thesis
      proof (cases "on_page P needle kind (fst (tasks s ! i)) html w1")
        case (Inl e')
        have "e' = ValueError"
          using on_page_Inl(1) [OF Inl] .
        then have "is_Exception e'"
          by (simp add: is_Exception_def)
        then show ?thesis
          unfolding Reply step.simps using True gf \<open>x = Inr html\<close> Inl fin
          by (simp add: task_raises_def)
      next
        case (Inr w2)
        then show ?thesis
          unfolding Reply step.simps using True gf \<open>x = Inr html\<close> fin by simp
      qed
    qed
  qed
qed

lemma unqueued_run_events:
  "unqueued cap s \<Longrightarrow> unqueued cap (run_events P needle fo kind es s)"
  by (induction es arbitrary: s) (simp_all add: unqueued_step)

lemma within_cap_never_raises:
  assumes "length urls \<le> cap"
  shows "fst (gather P needle fo kind cap urls es w) \<noteq> Raised e"
proof -
  have "filter (\<lambda>t. holds_permit (snd t)) (map (\<lambda>u. (u, NotStarted)) urls) = []"
    by (induction urls) (simp_all add: holds_permit_def)
  then have "unqueued cap (init_stage cap urls w)"
    using assms by (simp add: unqueued_def init_stage_def permits_held_def list_all_iff)
  then have "unqueued cap (run_events P needle fo kind es (init_stage cap urls w))"
    by (rule unqueued_run_events)
  then have "\<not> escaped (run_events P needle fo kind es (init_stage cap urls w))"
    by (auto simp: unqueued_def escaped_def list_all_iff)
  then show ?thesis
    by (simp add: gather_def Let_def join_def)
qed

section \<open>Claims\<close>

text \<open>
  C1. For every schedule of \<open>acquire\<close> calls (any number of callers, resumed in any order,
  with any passage of time and any jitter draws) on a pacer created with capacity \<open>r\<close>, the
  number of admissions whose time stamps lie in the trailing one-second window ending at
  any instant \<open>t\<close> never exceeds the pacer's capacity \<open>max(1, r)\<close>.
\<close>

theorem rate_bound_any_window:
  "int (admitted_in_window t (pexec es (init_limiter r t0))) \<le> max 1 r"
proof -
  have "limiter_inv (pexec es (init_limiter r t0))"
    by (rule limiter_inv_pexec) (rule limiter_inv_init)
  then have "int (admitted_in_window t (pexec es (init_limiter r t0)))
      \<le> rps (pacer_of (pexec es (init_limiter r t0)))"
    unfolding limiter_inv_def by blast
  also have "\<dots> = max 1 r"
    by (simp add: rps_pexec init_limiter_def FixedPacer_def)
  finally show ?thesis .
qed




text \<open>
  C3. The code does not do what the claim says. With the caps of the source, let the
  listing page link thirteen tournaments. The thirteen tasks of the Expanding stage are
  started: twelve take the semaphore and issue their requests, the thirteenth waits for
  it. The first answer is a status 503 for the first tournament: \<open>_get\<close> sets the signal
  and the task ends in its handler, which releases the semaphore. The waiting task now
  gets it and calls \<open>_get\<close>, which finds the signal set and raises \<open>CancelledError\<close>; the
  handler \<open>except Exception\<close> does not catch it, \<open>gather\<close> hands it on, and it leaves
  \<open>run\<close>. The claim has \<open>run\<close> return \<open>(13, 0, [])\<close> here. The later schedule \<open>es3\<close> is
  never reached.
\<close>

theorem abort_with_waiting_task_raises:
  "run demo_parsers source_config ''Pikachu'' (Body (asc ''M''))
     [Start 0, Paced 0, Reply 0 (Body (asc ''M''))]
     [Start 0, Start 1, Start 2, Start 3, Start 4, Start 5, Start 6, Start 7, Start 8,
      Start 9, Start 10, Start 11, Start 12,
      Paced 0, Paced 1, Paced 2, Paced 3, Paced 4, Paced 5, Paced 6, Paced 7, Paced 8,
      Paced 9, Paced 10, Paced 11,
      Reply 0 (HttpError 503 ''Service Unavailable''), Grant 12]
     es3
   = (Raises CancelledError,
      \<lparr>stop_evt = True, error_count = 1,
        printed = [''[fail-fast] error on t01'',
                   ''[fail-fast] HTTP 503: Service Unavailable''],
        acquired = 14,
        requested = [LIST_URL, LIST_URL, ''t01'', ''t02'', ''t03'', ''t04'', ''t05'', ''t06'',
                     ''t07'', ''t08'', ''t09'', ''t10'', ''t11'', ''t12''],
        tourneys = [''t01'', ''t02'', ''t03'', ''t04'', ''t05'', ''t06'', ''t07'', ''t08'',
                    ''t09'', ''t10'', ''t11'', ''t12'', ''t13''],
        deck_urls = [], matches = []\<rparr>)"
  by (simp add: pipeline_eval max_page_M page_urls_1 needle_of_Pikachu' str_int_503)

text \<open>
  C4. The code does not do what the claim says. With the caps of the source, let the
  first listing page announce thirteen pages. The thirteen tasks of the Listing stage
  are started: twelve take the semaphore and issue their requests, the thirteenth waits
  for it. The first answer is a status 503: \<open>_get\<close> sets the signal and the task ends in
  its handler. The waiting task now gets the semaphore and calls \<open>_get\<close>, which raises
  \<open>CancelledError\<close>, and the error leaves \<open>run\<close>: the Listing stage is over with the
  signal set, no task of a later stage runs whatever the schedules \<open>es2\<close> and \<open>es3\<close>, and
  yet \<open>run\<close> does not return \<open>(0, 0, [])\<close>.
\<close>

theorem listing_abort_raises:
  "run demo_parsers source_config ''Pikachu''
     (Body (asc ''<ul class=\"pagination\" data-max=\"13\">''))
     [Start 0, Start 1, Start 2, Start 3, Start 4, Start 5, Start 6, Start 7, Start 8,
      Start 9, Start 10, Start 11, Start 12,
      Paced 0, Paced 1, Paced 2, Paced 3, Paced 4, Paced 5, Paced 6, Paced 7, Paced 8,
      Paced 9, Paced 10, Paced 11,
      Reply 0 (HttpError 503 ''Service Unavailable''), Grant 12]
     es2 es3
   = (Raises CancelledError,
      \<lparr>stop_evt = True, error_count = 1,
        printed = [''[fail-fast] error on '' @ LIST_URL,
                   ''[fail-fast] HTTP 503: Service Unavailable''],
        acquired = 13,
        requested = LIST_URL # take 12 (page_urls 13),
        tourneys = [], deck_urls = [], matches = []\<rparr>)"
  by (simp add: pipeline_eval max_page_13 page_urls_13 needle_of_Pikachu' str_int_503)

text \<open>
  C5. A call of \<open>_get\<close> with the cancellation signal set raises \<open>CancelledError\<close> at once:
  it does not call \<open>pacer.acquire()\<close>, it issues no request, it prints nothing, and it
  leaves the shared state as it was.
\<close>

theorem get_when_cancelled:
  assumes "stop_evt w"
  shows "get u resp w = (Inl CancelledError, w)
     \<and> get_enter w = Inl CancelledError
     \<and> acquired (snd (get u resp w)) = acquired w
     \<and> requested (snd (get u resp w)) = requested w
     \<and> printed (snd (get u resp w)) = printed w"
  using assms by (simp add: get_def get_enter_def)

theorem get_when_cancelled_witness:
  "stop_evt (init_world\<lparr>stop_evt := True\<rparr>)
   \<and> get LIST_URL (Body (asc ''L'')) (init_world\<lparr>stop_evt := True\<rparr>)
       = (Inl CancelledError, init_world\<lparr>stop_evt := True\<rparr>)
   \<and> acquired (snd (get LIST_URL (Body (asc ''L'')) (init_world\<lparr>stop_evt := True\<rparr>))) = 0"
proof -
  have s: "stop_evt (init_world\<lparr>stop_evt := True\<rparr>)" by simp
  show ?thesis
    using s get_when_cancelled [OF s, of LIST_URL "Body (asc ''L'')"]
    by (simp add: init_world_def)
qed

text \<open>
  C6. In any run the output holds at most one fail-fast announcement: it is empty, or
  it is two lines, \<open>[fail-fast] error on\<close> with a URL that was requested and the line
  with the detail of the error, and then the signal is set. A failure in \<open>_get\<close> that
  finds the signal unset prints these two lines for its URL and its error, status and
  message of a response or class and text of another error, and sets the signal; a
  call that ends while the signal is set prints nothing and changes nothing.
\<close>

theorem single_announcement:
  "(printed (snd (run P cfg cname resp es1 es2 es3)) = []
    \<or> (stop_evt (snd (run P cfg cname resp es1 es2 es3))
        \<and> (\<exists>u'\<in>set (requested (snd (run P cfg cname resp es1 es2 es3))). \<exists>d.
              printed (snd (run P cfg cname resp es1 es2 es3)) = [''[fail-fast] error on '' @ u', d]
              \<and> ((\<exists>status message. d = ''[fail-fast] HTTP '' @ str_int status @ '': '' @ message)
                 \<or> (\<exists>name detail. d = ''[fail-fast] '' @ name @ '': '' @ detail)))))
   \<and> (\<not> stop_evt w \<longrightarrow>
        get_finish u (HttpError st msg) w
          = (Inl (ClientResponseError st msg),
             w\<lparr>printed := printed w @ [''[fail-fast] error on '' @ u,
                                        ''[fail-fast] HTTP '' @ str_int st @ '': '' @ msg],
               stop_evt := True\<rparr>))
   \<and> (\<not> stop_evt w \<longrightarrow>
        get_finish u (TransportError nm tx) w
          = (Inl (OtherError nm tx),
             w\<lparr>printed := printed w @ [''[fail-fast] error on '' @ u,
                                        ''[fail-fast] '' @ nm @ '': '' @ tx],
               stop_evt := True\<rparr>))
   \<and> (stop_evt w \<longrightarrow> snd (get_finish u r w) = w)"
proof -
  have a: "get_finish u (HttpError st msg) w
          = (Inl (ClientResponseError st msg),
             w\<lparr>printed := printed w @ [''[fail-fast] error on '' @ u,
                                        ''[fail-fast] HTTP '' @ str_int st @ '': '' @ msg],
               stop_evt := True\<rparr>)"
    if "\<not> stop_evt w"
    using that by (simp add: announce_def)
  have b: "get_finish u (TransportError nm tx) w
          = (Inl (OtherError nm tx),
             w\<lparr>printed := printed w @ [''[fail-fast] error on '' @ u,
                                        ''[fail-fast] '' @ nm @ '': '' @ tx],
               stop_evt := True\<rparr>)"
    if "\<not> stop_evt w"
    using that by (simp add: announce_def)
  have c: "snd (get_finish u r w) = w" if "stop_evt w"
    using that by (cases r) (simp_all add: announce_def)
  have d: "announced_once (snd (run P cfg cname resp es1 es2 es3))"
    by (rule run_announced_once)
  show ?thesis
    using a b c d [unfolded announced_once_def is_detail_def] by blast
qed

theorem single_announcement_witness:
  "printed (snd (run demo_parsers source_config '' Pikachu '' (Body (asc ''L''))
          [Start 0, Paced 0, Reply 0 (Body (asc ''L''))]
          [Start 0, Paced 0, Reply 0 (Body (asc ''T''))]
          [Start 0, Start 1, Paced 0, Paced 1, Reply 1 (Body (asc ''pikachu'')),
           Reply 0 (TransportError ''TimeoutError'' [])]))
     = [''[fail-fast] error on d1'', ''[fail-fast] TimeoutError: '']
   \<and> get_finish ''d1'' (HttpError 503 ''Service Unavailable'') init_world
       = (Inl (ClientResponseError 503 ''Service Unavailable''),
          init_world\<lparr>printed := [''[fail-fast] error on d1'',
                                  ''[fail-fast] HTTP 503: Service Unavailable''],
                      stop_evt := True\<rparr>)
   \<and> get_finish ''d1'' (TransportError ''TimeoutError'' []) init_world
       = (Inl (OtherError ''TimeoutError'' []),
          init_world\<lparr>printed := [''[fail-fast] error on d1'', ''[fail-fast] TimeoutError: ''],
                      stop_evt := True\<rparr>)
   \<and> snd (get_finish ''d2'' (HttpError 503 ''Service Unavailable'') (init_world\<lparr>stop_evt := True\<rparr>))
       = init_world\<lparr>stop_evt := True\<rparr>"
proof -
  let ?r = "run demo_parsers source_config '' Pikachu '' (Body (asc ''L''))
          [Start 0, Paced 0, Reply 0 (Body (asc ''L''))]
          [Start 0, Paced 0, Reply 0 (Body (asc ''T''))]
          [Start 0, Start 1, Paced 0, Paced 1, Reply 1 (Body (asc ''pikachu'')),
           Reply 0 (TransportError ''TimeoutError'' [])]"
  have p: "printed (snd ?r) = [''[fail-fast] error on d1'', ''[fail-fast] TimeoutError: '']"
    unfolding demo_late_abort by simp
  have n: "\<not> stop_evt init_world" by (simp add: init_world_def)
  have s: "stop_evt (init_world\<lparr>stop_evt := True\<rparr>)" by simp
  have e: "printed init_world = []" by (simp add: init_world_def)
  note one = single_announcement [where w = init_world and u = "''d1''" and st = 503
      and msg = "''Service Unavailable''" and nm = "''TimeoutError''" and tx = "[]"]
  note two = single_announcement [where w = "init_world\<lparr>stop_evt := True\<rparr>" and u = "''d2''"
      and r = "HttpError 503 ''Service Unavailable''"]
  have a: "get_finish ''d1'' (HttpError 503 ''Service Unavailable'') init_world
       = (Inl (ClientResponseError 503 ''Service Unavailable''),
          init_world\<lparr>printed := printed init_world @ [''[fail-fast] error on '' @ ''d1'',
                 ''[fail-fast] HTTP '' @ str_int 503 @ '': '' @ ''Service Unavailable''],
                      stop_evt := True\<rparr>)"
    using one n by blast
  have b: "get_finish ''d1'' (TransportError ''TimeoutError'' []) init_world
       = (Inl (OtherError ''TimeoutError'' []),
          init_world\<lparr>printed := printed init_world @ [''[fail-fast] error on '' @ ''d1'',
                 ''[fail-fast] '' @ ''TimeoutError'' @ '': '' @ []],
                      stop_evt := True\<rparr>)"
    using one n by blast
  have c: "snd (get_finish ''d2'' (HttpError 503 ''Service Unavailable'') (init_world\<lparr>stop_evt := True\<rparr>))
       = init_world\<lparr>stop_evt := True\<rparr>"
    using two s by blast
  show ?thesis
    using p c unfolding a b by (simp add: e str_int_503)
qed

text \<open>
  C7. \<open>_dedupe_keep_order\<close> is a stable first-occurrence filter: for every input list the
  output consists of exactly the elements that do not occur earlier in the input, in input
  order; the output is a subsequence of the input, has no repeated element and has the same
  elements as the input; on \<open>[a, b, a, c, b]\<close> it gives \<open>[a, b, c]\<close>; and applying it twice
  gives the same as applying it once.
\<close>

theorem dedupe_stable_first_occurrence:
  "dedupe_keep_order urls = first_occurrences urls
   \<and> subseq (dedupe_keep_order urls) urls
   \<and> distinct (dedupe_keep_order urls)
   \<and> set (dedupe_keep_order urls) = set urls
   \<and> dedupe_keep_order [''a'', ''b'', ''a'', ''c'', ''b''] = [''a'', ''b'', ''c'']
   \<and> dedupe_keep_order (dedupe_keep_order urls) = dedupe_keep_order urls"
proof -
  have ex: "dedupe_keep_order [''a'', ''b'', ''a'', ''c'', ''b''] = [''a'', ''b'', ''c'']"
    by (simp add: dedupe_keep_order_def)
  have idem: "dedupe_keep_order (dedupe_keep_order urls) = dedupe_keep_order urls"
    by (rule dedupe_of_distinct) (rule dedupe_distinct)
  show ?thesis
    using dedupe_is_first_occurrences dedupe_subseq dedupe_distinct dedupe_set ex idem
    by blast
qed

text \<open>
  C8, as the code has it. The check-and-append on the admission window runs under the
  lock, and so does the jitter sleep that follows an admission: in every reachable state,
  a caller sleeping its jitter holds the lock, and resuming any other caller then admits
  nobody (the log and the pacer stay as they are). Only the back-off sleep of a caller
  that found the window full is performed without the lock.
\<close>

theorem jitter_sleep_keeps_lock:
  "(callers (pexec es (init_limiter r t0)) i = SleepingJitter w \<longrightarrow>
      lock_holder (pexec es (init_limiter r t0)) = Some i
      \<and> (\<forall>k x. k \<noteq> i \<longrightarrow>
            admissions (pstep (Resume k x) (pexec es (init_limiter r t0)))
              = admissions (pexec es (init_limiter r t0))
            \<and> pacer_of (pstep (Resume k x) (pexec es (init_limiter r t0)))
              = pacer_of (pexec es (init_limiter r t0))))
   \<and> (callers (pexec es (init_limiter r t0)) i = SleepingBackoff w \<longrightarrow>
      lock_holder (pexec es (init_limiter r t0)) \<noteq> Some i)"
proof -
  let ?s = "pexec es (init_limiter r t0)"
  have li: "lock_inv ?s"
    by (rule lock_inv_pexec) (rule lock_inv_init)
  have a: "lock_holder ?s = Some i" if "callers ?s i = SleepingJitter w"
    using li that unfolding lock_inv_def by blast
  have b: "admissions (pstep (Resume k x) ?s) = admissions ?s
      \<and> pacer_of (pstep (Resume k x) ?s) = pacer_of ?s"
    if "callers ?s i = SleepingJitter w" and "k \<noteq> i" for k x
    using held_lock_blocks(1,2) [OF li a [OF that(1)] that(2)] by simp
  have c: "lock_holder ?s \<noteq> Some i" if "callers ?s i = SleepingBackoff w"
  proof
    assume "lock_holder ?s = Some i"
    then obtain w' where "callers ?s i = SleepingJitter w'"
      using li unfolding lock_inv_def by blast
    then show False using that by simp
  qed
  show ?thesis using a b c by blast
qed

theorem jitter_sleep_keeps_lock_witness:
  "callers (pexec [Resume 0 (9 / 10)] (init_limiter 360 0)) 0 = SleepingJitter (4 / 1000)
   \<and> lock_holder (pexec [Resume 0 (9 / 10)] (init_limiter 360 0)) = Some 0
   \<and> admissions (pstep (Resume 1 (1 / 2)) (pexec [Resume 0 (9 / 10)] (init_limiter 360 0)))
       = admissions (pexec [Resume 0 (9 / 10)] (init_limiter 360 0))
   \<and> callers (pexec [Resume 0 0, Resume 1 0] (init_limiter 1 0)) 1 = SleepingBackoff 1
   \<and> lock_holder (pexec [Resume 0 0, Resume 1 0] (init_limiter 1 0)) \<noteq> Some 1"
proof -
  have j: "callers (pexec [Resume 0 (9 / 10)] (init_limiter 360 0)) 0 = SleepingJitter (4 / 1000)"
    by (simp add: init_limiter_def FixedPacer_def enter_lock_def locked_block_def
        JITTER_MAX_S_def Let_def)
  have b: "callers (pexec [Resume 0 0, Resume 1 0] (init_limiter 1 0)) 1 = SleepingBackoff 1"
    by (simp add: init_limiter_def FixedPacer_def enter_lock_def locked_block_def
        JITTER_MAX_S_def Let_def)
  have ne: "(1::nat) \<noteq> 0" by simp
  show ?thesis
    using j b ne
      jitter_sleep_keeps_lock [of "[Resume 0 (9 / 10)]" 360 0 0 "4 / 1000"]
      jitter_sleep_keeps_lock [of "[Resume 0 0, Resume 1 0]" 1 0 1 1]
    by blast
qed

text \<open>
  The claim as stated fails: capacity 360, clock at 0. Caller 0 is admitted and draws
  \<open>random.random() = 0.9\<close>, so it sleeps a jitter of 4 ms; it holds the lock while it
  sleeps. Caller 1 arrives during that sleep: the window holds one stamp out of 360, but
  caller 1 is not admitted, it waits for the lock.
\<close>

theorem jitter_sleep_outside_lock_counterexample:
  "callers (pexec [Resume 0 (9 / 10)] (init_limiter 360 0)) 0 = SleepingJitter (4 / 1000)
   \<and> lock_holder (pexec [Resume 0 (9 / 10)] (init_limiter 360 0)) = Some 0
   \<and> callers (pexec [Resume 0 (9 / 10), Resume 1 (1 / 2)] (init_limiter 360 0)) 1 = WaitingLock
   \<and> admissions (pexec [Resume 0 (9 / 10), Resume 1 (1 / 2)] (init_limiter 360 0)) = [0]
   \<and> total_started (pacer_of (pexec [Resume 0 (9 / 10), Resume 1 (1 / 2)] (init_limiter 360 0))) = 1"
  by (simp add: init_limiter_def FixedPacer_def enter_lock_def locked_block_def
      JITTER_MAX_S_def Let_def)




text \<open>
  C10. The record that \<open>check_deck\<close> builds for a deck page never fails with a division
  by zero: there always is a record, its \<open>win_rate\<close> is \<open>wins / (wins + losses)\<close> when
  \<open>wins + losses > 0\<close> and \<open>0.0\<close> otherwise (ties are not in the denominator), and its
  \<open>played\<close> is \<open>wins + losses + ties\<close>, where the four numbers are those that
  \<open>_extract_details\<close> read from the page. Every record that a run accumulates is of this
  form.
\<close>

theorem win_rate_guarded:
  "(\<exists>m. deck_record P u html = Inr m \<and> record_ok m
        \<and> (points m, wins m, losses m, ties m, dropped m) = extract_details P html)
   \<and> list_all record_ok (matches (snd (run P cfg cname resp es1 es2 es3)))"
proof -
  obtain m where m: "deck_record P u html = Inr m"
    using deck_record_total by blast
  have "record_ok m \<and> (points m, wins m, losses m, ties m, dropped m) = extract_details P html"
    using deck_record_fields(1,2) [OF m] by simp
  then show ?thesis
    using m run_records_ok [of P cfg cname resp es1 es2 es3] by (auto simp: records_ok_def)
qed

theorem win_rate_guarded_witness:
  "matches (snd (run demo_parsers source_config '' Pikachu '' (Body (asc ''L''))
          [Start 0, Paced 0, Reply 0 (Body (asc ''L''))]
          [Start 0, Paced 0, Reply 0 (Body (asc ''T''))]
          [Start 0, Start 1, Paced 0, Paced 1, Reply 1 (Body (asc ''pikachu'')),
           Reply 0 (TransportError ''TimeoutError'' [])]))
     = [\<lparr>url = ''d2'', player = ''Ash'', archetype = ''Other'', points = 6,
          wins = 2, losses = 1, ties = 1, dropped = False, win_rate = 2 / 3,
          played = 4\<rparr>]
   \<and> record_ok \<lparr>url = ''d2'', player = ''Ash'', archetype = ''Other'', points = 6,
          wins = 2, losses = 1, ties = 1, dropped = False, win_rate = 2 / 3,
          played = 4\<rparr>"
proof -
  let ?r = "run demo_parsers source_config '' Pikachu '' (Body (asc ''L''))
          [Start 0, Paced 0, Reply 0 (Body (asc ''L''))]
          [Start 0, Paced 0, Reply 0 (Body (asc ''T''))]
          [Start 0, Start 1, Paced 0, Paced 1, Reply 1 (Body (asc ''pikachu'')),
           Reply 0 (TransportError ''TimeoutError'' [])]"
  have m: "matches (snd ?r)
     = [\<lparr>url = ''d2'', player = ''Ash'', archetype = ''Other'', points = 6,
          wins = 2, losses = 1, ties = 1, dropped = False, win_rate = 2 / 3,
          played = 4\<rparr>]"
    unfolding demo_late_abort by simp
  have "list_all record_ok (matches (snd ?r))"
    using win_rate_guarded [of demo_parsers "''d2''" "asc ''pikachu''" source_config "'' Pikachu ''"
        "Body (asc ''L'')" "[Start 0, Paced 0, Reply 0 (Body (asc ''L''))]"
        "[Start 0, Paced 0, Reply 0 (Body (asc ''T''))]"
        "[Start 0, Start 1, Paced 0, Paced 1, Reply 1 (Body (asc ''pikachu'')),
           Reply 0 (TransportError ''TimeoutError'' [])]"]
    by blast
  then show ?thesis
    unfolding m by simp
qed

end
